theory Spec2Isabelle
  imports Complex_Main "HOL-Library.Word" "HOL-Library.Log_Nat"
begin

unbundle bit_operations_syntax

section \<open>IPv4 addresses\<close>

type_synonym uint32 = "32 word"

text \<open>
  \<open>Ipv4Address("a.b.c.d")\<close> and \<open>Ipv4Mask("a.b.c.d")\<close>: the dotted quad as the 32-bit
  value the framework stores (host order, first octet most significant).
\<close>

definition Ipv4Address :: "uint32 \<Rightarrow> uint32 \<Rightarrow> uint32 \<Rightarrow> uint32 \<Rightarrow> uint32" where
  "Ipv4Address a b c d = a * 16777216 + b * 65536 + c * 256 + d"

definition Ipv4Mask :: "uint32 \<Rightarrow> uint32 \<Rightarrow> uint32 \<Rightarrow> uint32 \<Rightarrow> uint32" where
  "Ipv4Mask a b c d = a * 16777216 + b * 65536 + c * 256 + d"

section \<open>Static routing tables (exercise02, exercise03)\<close>

datatype core_error = InvalidDelay | RouteNotFound | Unreachable

text \<open>
  One entry of a node's static routing table, with the fields the scenarios pass to
  \<open>AddNetworkRouteTo(network, mask, nextHop, interface, metric)\<close> and read back with
  \<open>GetDestNetwork()\<close> and \<open>GetDestNetworkMask()\<close>.
\<close>

record Ipv4RoutingTableEntry =
  destNetwork :: uint32
  destNetworkMask :: uint32
  nextHop :: uint32
  interface :: uint32
  metric :: uint32

type_synonym routing_table = "Ipv4RoutingTableEntry list"

text \<open>
  Modelled from the spec: \<open>Ipv4StaticRouting::AddNetworkRouteTo\<close>, \<open>GetNRoutes\<close>,
  \<open>GetRoute\<close> and \<open>RemoveRoute\<close> are called by the scenarios; their code is the simulation
  framework's and is not among the sources. The spec's \<open>add_route\<close> adds an entry and the
  table keeps insertion order: the table is the list of entries, oldest first, and index
  \<open>i\<close> is the \<open>i\<close>-th entry added and still present. The spec's invariant makes the triple
  (destination network and mask, next hop, interface) unique per node and gives \<open>add_route\<close>
  no failure: a call that names a triple the table holds adds no second entry and leaves
  the table as it is.
\<close>

definition same_route ::
    "uint32 \<Rightarrow> uint32 \<Rightarrow> uint32 \<Rightarrow> uint32 \<Rightarrow> Ipv4RoutingTableEntry \<Rightarrow> bool" where
  "same_route network networkMask nh ifIndex e =
     (destNetwork e = network \<and> destNetworkMask e = networkMask
      \<and> nextHop e = nh \<and> interface e = ifIndex)"

definition AddNetworkRouteTo ::
    "uint32 \<Rightarrow> uint32 \<Rightarrow> uint32 \<Rightarrow> uint32 \<Rightarrow> uint32 \<Rightarrow> routing_table \<Rightarrow> routing_table" where
  "AddNetworkRouteTo network networkMask nh ifIndex m rt =
     (if list_ex (same_route network networkMask nh ifIndex) rt then rt
      else rt @ [\<lparr> destNetwork = network, destNetworkMask = networkMask, nextHop = nh,
                   interface = ifIndex, metric = m \<rparr>])"

text \<open>
  The spec's invariant on a node's table: no two entries with the same destination network
  and mask, next hop and interface.
\<close>

definition unique_routes :: "routing_table \<Rightarrow> bool" where
  "unique_routes rt =
     distinct (map (\<lambda>e. (destNetwork e, destNetworkMask e, nextHop e, interface e)) rt)"

definition GetNRoutes :: "routing_table \<Rightarrow> nat" where
  "GetNRoutes rt = length rt"

definition GetRoute :: "routing_table \<Rightarrow> nat \<Rightarrow> Ipv4RoutingTableEntry" where
  "GetRoute rt i = rt ! i"

definition RemoveRoute :: "nat \<Rightarrow> routing_table \<Rightarrow> routing_table" where
  "RemoveRoute i rt = take i rt @ drop (Suc i) rt"

text \<open>
  Modelled from the spec: the routing lookup is the framework's. The spec's words: filter
  the entries whose network/mask contains the address; among the matches choose the longest
  mask; among equal-length masks the lowest metric; among equal metrics the earliest
  inserted; \<open>Unreachable\<close> when nothing matches. The length of a mask is the number of
  its leading one bits.
\<close>

definition contains_address :: "Ipv4RoutingTableEntry \<Rightarrow> uint32 \<Rightarrow> bool" where
  "contains_address e a = (a AND destNetworkMask e = destNetwork e AND destNetworkMask e)"

fun leading_ones :: "nat \<Rightarrow> uint32 \<Rightarrow> nat" where
  "leading_ones 0 m = 0"
| "leading_ones (Suc k) m = (if bit m k then Suc (leading_ones k m) else 0)"

definition GetPrefixLength :: "uint32 \<Rightarrow> nat" where
  "GetPrefixLength m = leading_ones 32 m"

definition preferred :: "Ipv4RoutingTableEntry \<Rightarrow> Ipv4RoutingTableEntry \<Rightarrow> bool" where
  "preferred e best =
     (GetPrefixLength (destNetworkMask best) < GetPrefixLength (destNetworkMask e)
      \<or> (GetPrefixLength (destNetworkMask e) = GetPrefixLength (destNetworkMask best)
          \<and> metric e < metric best))"

fun select_route :: "Ipv4RoutingTableEntry \<Rightarrow> routing_table \<Rightarrow> Ipv4RoutingTableEntry" where
  "select_route best [] = best"
| "select_route best (e # es) = select_route (if preferred e best then e else best) es"

text \<open>
  Modelled from the spec: \<open>lookup(node, destination_address)\<close>, first as the entry chosen
  (filter the matching entries, then keep the best so far, replacing it only by a strictly
  preferred entry), then as the spec's result \<open>(next_hop, interface) | Unreachable\<close>.
\<close>

definition lookup_entry :: "routing_table \<Rightarrow> uint32 \<Rightarrow> Ipv4RoutingTableEntry option" where
  "lookup_entry rt a =
     (case filter (\<lambda>e. contains_address e a) rt of
        [] \<Rightarrow> None
      | e # es \<Rightarrow> Some (select_route e es))"

definition lookup :: "routing_table \<Rightarrow> uint32 \<Rightarrow> core_error + (uint32 \<times> uint32)" where
  "lookup rt a =
     (case lookup_entry rt a of
        None \<Rightarrow> Inl Unreachable
      | Some e \<Rightarrow> Inr (nextHop e, interface e))"

text \<open>
  The tables the scenarios configure. exercise02, node HQ: the primary route to
  \<open>10.1.3.0/24\<close> via Branch (metric 0) and the alternative via DC (metric 10).
\<close>

definition staticRoutingHQ :: routing_table where
  "staticRoutingHQ =
     AddNetworkRouteTo (Ipv4Address 10 1 3 0) (Ipv4Mask 255 255 255 0) (Ipv4Address 10 1 2 2) 2 10
       (AddNetworkRouteTo (Ipv4Address 10 1 3 0) (Ipv4Mask 255 255 255 0) (Ipv4Address 10 1 1 2) 1 0
          [])"

text \<open>
  exercise03, node DC-A. With \<open>routingType = "static"\<close> only the primary route (metric 10);
  with \<open>"manual-failover"\<close> also the backup link (metric 50) and the backup router
  (metric 100), added in this order.
\<close>

definition routingDCA_static :: routing_table where
  "routingDCA_static =
     AddNetworkRouteTo (Ipv4Address 10 1 4 0) (Ipv4Mask 255 255 255 0) (Ipv4Address 10 1 4 2) 2 10 []"

definition routingDCA_manual_failover :: routing_table where
  "routingDCA_manual_failover =
     AddNetworkRouteTo (Ipv4Address 10 1 4 0) (Ipv4Mask 255 255 255 0) (Ipv4Address 10 1 5 2) 4 100
       (AddNetworkRouteTo (Ipv4Address 10 1 4 0) (Ipv4Mask 255 255 255 0) (Ipv4Address 10 1 3 2) 3 50
          routingDCA_static)"

section \<open>Clock, event queue and scheduler\<close>

text \<open>
  Modelled from the spec: the scenarios call \<open>Simulator::Schedule\<close>, \<open>Simulator::Cancel\<close>,
  \<open>Simulator::Now\<close>, \<open>Simulator::Stop\<close> and \<open>Simulator::Run\<close>, which are the framework's.
  The spec's words: an event is \<open>{scheduled_time, insertion_sequence, action}\<close> and may be
  cancelled (marked inert); the queue is ordered by scheduled time ascending, then by
  insertion sequence ascending; \<open>schedule(delay, action)\<close> fails with \<open>InvalidDelay\<close> when
  the delay is negative and otherwise inserts the event at \<open>now() + delay\<close> with the next
  sequence number, which is the handle it returns; \<open>cancel(handle)\<close> is idempotent and a
  no-op on an executed handle.
\<close>

record 'a event =
  scheduled_time :: int
  insertion_sequence :: nat
  action :: 'a
  cancelled :: bool

record 'a scheduler =
  clock :: int
  next_sequence :: nat
  queue :: "'a event list"

text \<open>Modelled from the spec: \<open>now() -> time\<close>, the value of the clock.\<close>

definition now :: "'a scheduler \<Rightarrow> int" where
  "now s = clock s"

text \<open>
  Modelled from the spec: the order of the queue, \<open>(scheduled_time ascending,
  insertion_sequence ascending)\<close>, and the insertion of an event into a queue so ordered.
\<close>

definition event_before :: "'a event \<Rightarrow> 'a event \<Rightarrow> bool" where
  "event_before x y =
     (scheduled_time x < scheduled_time y
      \<or> (scheduled_time x = scheduled_time y \<and> insertion_sequence x < insertion_sequence y))"

fun enqueue :: "'a event \<Rightarrow> 'a event list \<Rightarrow> 'a event list" where
  "enqueue e [] = [e]"
| "enqueue e (x # xs) = (if event_before e x then e # x # xs else x # enqueue e xs)"

text \<open>
  Modelled from the spec: \<open>schedule(delay, action) -> handle\<close>, failing with \<open>InvalidDelay\<close>
  when the delay is negative (nothing is enqueued then).
\<close>

definition schedule :: "int \<Rightarrow> 'a \<Rightarrow> 'a scheduler \<Rightarrow> core_error + (nat \<times> 'a scheduler)" where
  "schedule delay a s =
     (if delay < 0 then Inl InvalidDelay
      else Inr (next_sequence s,
                s\<lparr> next_sequence := Suc (next_sequence s),
                   queue := enqueue \<lparr> scheduled_time = clock s + delay,
                                      insertion_sequence = next_sequence s,
                                      action = a, cancelled = False \<rparr> (queue s) \<rparr>))"

text \<open>
  Modelled from the spec: \<open>cancel(handle)\<close> marks the event of that handle inert; the event
  stays in the queue and is skipped when it is popped.
\<close>

definition mark_cancelled :: "nat \<Rightarrow> 'a event \<Rightarrow> 'a event" where
  "mark_cancelled h e = (if insertion_sequence e = h then e\<lparr> cancelled := True \<rparr> else e)"

definition cancel :: "nat \<Rightarrow> 'a scheduler \<Rightarrow> 'a scheduler" where
  "cancel h s = s\<lparr> queue := map (mark_cancelled h) (queue s) \<rparr>"

text \<open>
  Modelled from the spec: \<open>EventId::IsPending\<close> is the framework's. An event is owned by
  the queue until it is executed and may be cancelled before: a handle is pending while its
  event is in the queue and not cancelled. The default-constructed \<open>EventId\<close>, \<open>None\<close>, is
  never pending.
\<close>

definition IsPending :: "nat option \<Rightarrow> 'a scheduler \<Rightarrow> bool" where
  "IsPending h s =
     (case h of
        None \<Rightarrow> False
      | Some n \<Rightarrow> list_ex (\<lambda>e. insertion_sequence e = n \<and> \<not> cancelled e) (queue s))"

definition initial_scheduler :: "'a scheduler" where
  "initial_scheduler = \<lparr> clock = 0, next_sequence = 0, queue = [] \<rparr>"

text \<open>
  The simulated world: the scheduler and the state the event actions work on. An action is
  run by a handler, a function on the world.
\<close>

record ('a, 'u) world =
  sched :: "'a scheduler"
  user :: 'u

type_synonym ('a, 'u) handler = "'a \<Rightarrow> ('a, 'u) world \<Rightarrow> ('a, 'u) world"

text \<open>
  Modelled from the spec: \<open>run_until(stop_time)\<close>. Repeatedly: if the queue is empty or the
  next event's time is beyond the stop time, stop; otherwise pop the earliest event, advance
  the clock to its time, and execute its action unless it is cancelled. An action may
  schedule further events, so the run need not end: \<open>fuel\<close> bounds the number of events
  popped, and \<open>finished\<close> tells whether the run has reached its terminal condition. The log
  holds, for each executed event, the event and the value of \<open>now()\<close> right after it.
\<close>

fun run_until ::
    "int \<Rightarrow> nat \<Rightarrow> ('a, 'u) handler \<Rightarrow> ('a, 'u) world \<Rightarrow> ('a event \<times> int) list \<times> ('a, 'u) world" where
  "run_until stop_time 0 h w = ([], w)"
| "run_until stop_time (Suc fuel) h w =
     (case queue (sched w) of
        [] \<Rightarrow> ([], w)
      | e # q \<Rightarrow>
          if stop_time < scheduled_time e then ([], w)
          else
            let w1 = w\<lparr> sched := (sched w)\<lparr> clock := scheduled_time e, queue := q \<rparr> \<rparr>
            in if cancelled e then run_until stop_time fuel h w1
               else
                 let w2 = h (action e) w1;
                     r = run_until stop_time fuel h w2
                 in ((e, now (sched w2)) # fst r, snd r))"

definition finished :: "int \<Rightarrow> ('a, 'u) world \<Rightarrow> bool" where
  "finished stop_time w =
     (case queue (sched w) of [] \<Rightarrow> True | e # q \<Rightarrow> stop_time < scheduled_time e)"

text \<open>
  Actions reach the scheduler only through \<open>schedule\<close> and \<open>cancel\<close> (and read \<open>now\<close>); the
  rest of the world is theirs to change. \<open>api_reach w w'\<close>: the world \<open>w'\<close> comes from \<open>w\<close>
  by such calls.
\<close>

inductive api_reach :: "('a, 'u) world \<Rightarrow> ('a, 'u) world \<Rightarrow> bool" where
  api_refl: "api_reach w w"
| api_schedule:
    "api_reach w w1 \<Longrightarrow> schedule delay a (sched w1) = Inr (h, s') \<Longrightarrow>
       api_reach w (w1\<lparr> sched := s' \<rparr>)"
| api_cancel: "api_reach w w1 \<Longrightarrow> api_reach w (w1\<lparr> sched := cancel h (sched w1) \<rparr>)"
| api_user: "api_reach w w1 \<Longrightarrow> api_reach w (w1\<lparr> user := u \<rparr>)"

definition api_only :: "('a, 'u) handler \<Rightarrow> bool" where
  "api_only h = (\<forall>a w. api_reach w (h a w))"

text \<open>
  The queue invariant of the scheduler: the queue is ordered by (time, sequence), no queued
  event lies in the past, and every queued sequence number is below the next one to be
  handed out and occurs once.
\<close>

definition sched_inv :: "'a scheduler \<Rightarrow> bool" where
  "sched_inv s =
     (sorted_wrt event_before (queue s)
      \<and> list_all (\<lambda>e. clock s \<le> scheduled_time e \<and> insertion_sequence e < next_sequence s)
           (queue s)
      \<and> distinct (map insertion_sequence (queue s)))"

text \<open>
  \<open>behind e s\<close>: the event \<open>e\<close> lies before everything the scheduler \<open>s\<close> holds or can still
  be given, in the order of the queue.
\<close>

definition behind :: "'a event \<Rightarrow> 'a scheduler \<Rightarrow> bool" where
  "behind e s =
     (scheduled_time e \<le> clock s \<and> insertion_sequence e < next_sequence s
      \<and> list_all (event_before e) (queue s))"

text \<open>External schedule calls, made one after the other; a rejected call enqueues nothing.\<close>

fun schedule_all :: "(int \<times> 'a) list \<Rightarrow> 'a scheduler \<Rightarrow> 'a scheduler" where
  "schedule_all [] s = s"
| "schedule_all ((delay, a) # cs) s =
     (case schedule delay a s of
        Inl err \<Rightarrow> schedule_all cs s
      | Inr (h, s') \<Rightarrow> schedule_all cs s')"

text \<open>
  Two runs side by side. Events correspond when they agree on time, sequence number and
  cancellation and their actions are related by \<open>P\<close>; schedulers correspond when clock,
  next sequence number and queues do; worlds when schedulers do and the user states are
  related by \<open>Q\<close>. Two handlers respect the correspondence when related actions take
  corresponding worlds to corresponding worlds, that is, when they make the same scheduler
  calls in both runs.
\<close>

definition event_rel :: "('a \<Rightarrow> 'b \<Rightarrow> bool) \<Rightarrow> 'a event \<Rightarrow> 'b event \<Rightarrow> bool" where
  "event_rel P x y =
     (scheduled_time x = scheduled_time y \<and> insertion_sequence x = insertion_sequence y
      \<and> cancelled x = cancelled y \<and> P (action x) (action y))"

definition sched_rel :: "('a \<Rightarrow> 'b \<Rightarrow> bool) \<Rightarrow> 'a scheduler \<Rightarrow> 'b scheduler \<Rightarrow> bool" where
  "sched_rel P s1 s2 =
     (clock s1 = clock s2 \<and> next_sequence s1 = next_sequence s2
      \<and> list_all2 (event_rel P) (queue s1) (queue s2))"

definition world_rel ::
    "('a \<Rightarrow> 'b \<Rightarrow> bool) \<Rightarrow> ('u \<Rightarrow> 'v \<Rightarrow> bool) \<Rightarrow> ('a, 'u) world \<Rightarrow> ('b, 'v) world \<Rightarrow> bool" where
  "world_rel P Q w1 w2 = (sched_rel P (sched w1) (sched w2) \<and> Q (user w1) (user w2))"

definition handlers_correspond ::
    "('a \<Rightarrow> 'b \<Rightarrow> bool) \<Rightarrow> ('u \<Rightarrow> 'v \<Rightarrow> bool) \<Rightarrow> ('a, 'u) handler \<Rightarrow> ('b, 'v) handler \<Rightarrow> bool" where
  "handlers_correspond P Q h1 h2 =
     (\<forall>a b w1 w2. P a b \<and> world_rel P Q w1 w2 \<longrightarrow> world_rel P Q (h1 a w1) (h2 b w2))"

definition call_rel :: "('a \<Rightarrow> 'b \<Rightarrow> bool) \<Rightarrow> int \<times> 'a \<Rightarrow> int \<times> 'b \<Rightarrow> bool" where
  "call_rel P c1 c2 = (fst c1 = fst c2 \<and> P (snd c1) (snd c2))"

definition executed_rel :: "('a \<Rightarrow> 'b \<Rightarrow> bool) \<Rightarrow> 'a event \<times> int \<Rightarrow> 'b event \<times> int \<Rightarrow> bool" where
  "executed_rel P x y = (event_rel P (fst x) (fst y) \<and> snd x = snd y)"

section \<open>exercise03: link failure and manual failover\<close>

text \<open>
  The objects and globals the two scheduled functions of exercise03 touch: per node the
  static routing table that \<open>dynamic_cast<Ipv4StaticRouting*>\<close> yields (\<open>None\<close> when the cast
  yields null), per net device its data rate in bit/s (a 64-bit value), and the globals
  \<open>failureOccurred\<close>, \<open>backupRouteActivated\<close>, \<open>convergenceStartTime\<close> and
  \<open>convergenceEndTime\<close>. Times are in the simulator's unit, nanoseconds.
\<close>

record regionalbank_state =
  staticRouting :: "nat \<Rightarrow> routing_table option"
  dataRate :: "nat \<Rightarrow> 64 word"
  failureOccurred :: bool
  backupRouteActivated :: bool
  convergenceStartTime :: int
  convergenceEndTime :: int

text \<open>
  \<open>SimulateLinkFailure(device)\<close>: \<open>device->SetDataRate(DataRate("1bps"))\<close>,
  \<open>failureOccurred = true\<close>, \<open>convergenceStartTime = Simulator::Now()\<close>.
\<close>

definition SimulateLinkFailure :: "int \<Rightarrow> nat \<Rightarrow> regionalbank_state \<Rightarrow> regionalbank_state" where
  "SimulateLinkFailure simNow device st =
     st\<lparr> dataRate := (dataRate st)(device := 1),
         failureOccurred := True,
         convergenceStartTime := simNow \<rparr>"

text \<open>
  The removal loop of \<open>ActivateBackupRoute\<close>:
  \<^verbatim>\<open>for (i = 0; i < GetNRoutes(); i++) { route = GetRoute(i);
    if (route.GetDestNetwork() == destNetwork && route.GetDestNetworkMask() == mask)
      { RemoveRoute(i); break; } }\<close>
\<close>

function remove_old_route_from :: "nat \<Rightarrow> uint32 \<Rightarrow> uint32 \<Rightarrow> routing_table \<Rightarrow> routing_table" where
  "remove_old_route_from i destNet msk rt =
     (if i < GetNRoutes rt then
        (let route = GetRoute rt i
         in if destNetwork route = destNet \<and> destNetworkMask route = msk
            then RemoveRoute i rt
            else remove_old_route_from (Suc i) destNet msk rt)
      else rt)"
  by pat_completeness auto
termination
  by (relation "measure (\<lambda>(i, destNet, msk, rt). length rt - i)") (auto simp: GetNRoutes_def)

declare remove_old_route_from.simps [simp del]

text \<open>
  \<open>ActivateBackupRoute(node, destNetwork, mask, nextHop, interface)\<close>: when the node has a
  static routing protocol, remove the old route (if it exists), call
  \<open>AddNetworkRouteTo\<close> for the backup route with metric 50, set \<open>backupRouteActivated\<close> and \<open>convergenceEndTime\<close>. It returns nothing and
  reports nothing to its caller.
\<close>

definition ActivateBackupRoute ::
    "int \<Rightarrow> nat \<Rightarrow> uint32 \<Rightarrow> uint32 \<Rightarrow> uint32 \<Rightarrow> uint32 \<Rightarrow> regionalbank_state \<Rightarrow> regionalbank_state" where
  "ActivateBackupRoute simNow node destNet msk nh ifIndex st =
     (case staticRouting st node of
        None \<Rightarrow> st
      | Some rt \<Rightarrow>
          st\<lparr> staticRouting := (staticRouting st)
                 (node \<mapsto> AddNetworkRouteTo destNet msk nh ifIndex 50
                            (remove_old_route_from 0 destNet msk rt)),
              backupRouteActivated := True,
              convergenceEndTime := simNow \<rparr>)"

text \<open>
  The spec's \<open>remove_route(node, destination_network, mask)\<close>, in the spec's words, for
  comparison with the loop: it removes the first entry matching destination and mask in
  insertion order, or fails with \<open>RouteNotFound\<close>.
\<close>

fun remove_route :: "uint32 \<Rightarrow> uint32 \<Rightarrow> routing_table \<Rightarrow> core_error + routing_table" where
  "remove_route destNet msk [] = Inl RouteNotFound"
| "remove_route destNet msk (e # es) =
     (if destNetwork e = destNet \<and> destNetworkMask e = msk then Inr es
      else (case remove_route destNet msk es of
              Inl err \<Rightarrow> Inl err
            | Inr es' \<Rightarrow> Inr (e # es')))"

text \<open>
  The events exercise03 schedules, and the handler that runs them. Nodes and devices are
  numbered in creation order: Branch-C 0, DC-A 1, DR-B 2, Backup-Router 3; the primary WAN
  link is the second link installed, with devices 2 (at DC-A) and 3 (at DR-B).
  \<open>Ipv4GlobalRoutingHelper::RecomputeRoutingTables\<close> is the framework's and works on the
  global routing protocol's own tables, which are no part of this state.
\<close>

datatype regionalbank_event =
    SimulateLinkFailureEv nat
  | ActivateBackupRouteEv nat uint32 uint32 uint32 uint32
  | RecomputeRoutingTablesEv

fun regionalbank_handler :: "(regionalbank_event, regionalbank_state) handler" where
  "regionalbank_handler (SimulateLinkFailureEv device) w =
     w\<lparr> user := SimulateLinkFailure (now (sched w)) device (user w) \<rparr>"
| "regionalbank_handler (ActivateBackupRouteEv node destNet msk nh ifIndex) w =
     w\<lparr> user := ActivateBackupRoute (now (sched w)) node destNet msk nh ifIndex (user w) \<rparr>"
| "regionalbank_handler RecomputeRoutingTablesEv w = w"

definition dcA :: nat where "dcA = 1"
definition dcAPrimaryDev :: nat where "dcAPrimaryDev = 2"
definition drBPrimaryDev :: nat where "drBPrimaryDev = 3"

text \<open>
  The \<open>Simulator::Schedule\<close> calls of \<open>main\<close>, in order, for a routing type and a failure time:
  the two link failures at \<open>Seconds(failureTime)\<close>, then for \<open>"manual-failover"\<close> the backup
  activation at \<open>Seconds(failureTime + 2.0)\<close>, for \<open>"global"\<close> the recomputation at
  \<open>Seconds(failureTime + 0.1)\<close>.
\<close>

definition regionalbank_calls :: "string \<Rightarrow> int \<Rightarrow> (int \<times> regionalbank_event) list" where
  "regionalbank_calls routingType failureTime =
     [(failureTime, SimulateLinkFailureEv dcAPrimaryDev),
      (failureTime, SimulateLinkFailureEv drBPrimaryDev)]
     @ (if routingType = ''manual-failover'' then
          [(failureTime + 2000000000,
            ActivateBackupRouteEv dcA (Ipv4Address 10 1 4 0) (Ipv4Mask 255 255 255 0)
              (Ipv4Address 10 1 3 2) 3)]
        else if routingType = ''global'' then
          [(failureTime + 100000000, RecomputeRoutingTablesEv)]
        else [])"

definition regionalbank_world ::
    "string \<Rightarrow> int \<Rightarrow> regionalbank_state \<Rightarrow> (regionalbank_event, regionalbank_state) world" where
  "regionalbank_world routingType failureTime st =
     \<lparr> sched = schedule_all (regionalbank_calls routingType failureTime) initial_scheduler,
       user = st \<rparr>"

text \<open>
  The state \<open>main\<close> sets up before the run, for a routing type and the data rate of the
  primary link: the static routes of Branch-C, DC-A, DR-B and the backup router (none with
  \<open>"global"\<close>), and the data rates of the ten net devices in installation order (access
  link, primary link, backup link, the two links of the backup path). Every node's static
  routing protocol is taken to be the one \<open>GetStaticRouting\<close> handed to \<open>main\<close>.
\<close>

definition regionalbank_initial :: "string \<Rightarrow> 64 word \<Rightarrow> regionalbank_state" where
  "regionalbank_initial routingType primaryRate =
     \<lparr> staticRouting =
         (if routingType = ''global'' then (\<lambda>node. Some [])
          else
            (\<lambda>node. Some [])
              (0 \<mapsto> AddNetworkRouteTo (Ipv4Address 10 1 4 0) (Ipv4Mask 255 255 255 0)
                       (Ipv4Address 10 1 1 2) 1 10 [],
               1 \<mapsto> (if routingType = ''manual-failover'' then routingDCA_manual_failover
                       else routingDCA_static),
               2 \<mapsto> (if routingType = ''manual-failover'' then
                         AddNetworkRouteTo (Ipv4Address 10 1 1 0) (Ipv4Mask 255 255 255 0)
                           (Ipv4Address 10 1 3 1) 2 50
                           (AddNetworkRouteTo (Ipv4Address 10 1 1 0) (Ipv4Mask 255 255 255 0)
                              (Ipv4Address 10 1 4 1) 1 10 [])
                       else
                         AddNetworkRouteTo (Ipv4Address 10 1 1 0) (Ipv4Mask 255 255 255 0)
                           (Ipv4Address 10 1 4 1) 1 10 []),
               3 \<mapsto> AddNetworkRouteTo (Ipv4Address 10 1 4 0) (Ipv4Mask 255 255 255 0)
                       (Ipv4Address 10 1 6 2) 2 10 [])),
       dataRate =
         (\<lambda>device. if device < 2 then 100000000
                    else if device < 4 then primaryRate
                    else if device < 6 then 2000000
                    else 5000000),
       failureOccurred = False,
       backupRouteActivated = False,
       convergenceStartTime = 0,
       convergenceEndTime = 0 \<rparr>"

section \<open>Flow statistics (exercise02, exercise03, exercise05)\<close>

text \<open>
  The fields of the framework's per-flow statistics record that the scenarios read. Packet
  counts are 32-bit unsigned; \<open>delaySum\<close> and \<open>jitterSum\<close> are the values of the doubles
  \<open>delaySum.GetSeconds()\<close> and \<open>jitterSum.GetSeconds()\<close>.
\<close>

record FlowStats =
  txPackets :: uint32
  rxPackets :: uint32
  delaySum :: rat
  jitterSum :: rat

text \<open>
  The scenarios compute in \<open>double\<close>, the IEEE 754 binary64 format. A finite double is the
  rational number it stands for (the sign of zero is not kept). \<open>DivisionByZero\<close> is the
  infinity or not-a-number a division by zero yields, \<open>Overflow\<close> the infinity of a result
  too large for the format; each stands also for what further operations make of it.
\<close>

datatype double = Finite rat | DivisionByZero | Overflow

text \<open>
  Rounding to nearest, ties to even, as every \<open>double\<close> operation of the scenarios rounds
  its exact result: \<open>floor_log2 x\<close> is the exponent \<open>k\<close> with \<open>2^k \<le> x < 2^(k+1)\<close> for a
  positive \<open>x\<close>; the result is a multiple of \<open>2^e\<close>, for \<open>e\<close> that leaves 53 significant bits
  but not below the exponent \<open>-1074\<close> of the subnormal numbers; a rounded magnitude of
  \<open>2^1024\<close> or more overflows.
\<close>

definition pow2 :: "int \<Rightarrow> rat" where
  "pow2 e = (if 0 \<le> e then of_int (2 ^ nat e) else 1 / of_int (2 ^ nat (- e)))"

definition round_half_even :: "rat \<Rightarrow> int" where
  "round_half_even x =
     (let f = \<lfloor>x\<rfloor>; r = x - of_int f
      in if r < 1 / 2 then f else if 1 / 2 < r then f + 1 else if even f then f else f + 1)"

definition floor_log2 :: "rat \<Rightarrow> int" where
  "floor_log2 x =
     (let k = bitlen (fst (quotient_of x)) - bitlen (snd (quotient_of x))
      in if pow2 k \<le> x then k else k - 1)"

definition round_double :: "rat \<Rightarrow> double" where
  "round_double x =
     (if x = 0 then Finite 0
      else
        let e = max (floor_log2 \<bar>x\<bar> - 52) (- 1074);
            r = of_int (round_half_even (\<bar>x\<bar> / pow2 e)) * pow2 e
        in if pow2 1024 \<le> r then Overflow else Finite (sgn x * r))"

text \<open>\<open>is_double x\<close>: the rational \<open>x\<close> is the value of a finite double.\<close>

definition is_double :: "rat \<Rightarrow> bool" where
  "is_double x = (round_double x = Finite x)"

text \<open>
  The conversion of a 32-bit unsigned count to \<open>double\<close> is exact. Division and
  multiplication of a double by a finite double given by its value: the exact result,
  rounded.
\<close>

definition of_uint32 :: "uint32 \<Rightarrow> rat" where
  "of_uint32 n = of_nat (unat n)"

fun fdiv :: "double \<Rightarrow> rat \<Rightarrow> double" where
  "fdiv (Finite a) b = (if b = 0 then DivisionByZero else round_double (a / b))"
| "fdiv DivisionByZero b = DivisionByZero"
| "fdiv Overflow b = Overflow"

fun fmul :: "double \<Rightarrow> rat \<Rightarrow> double" where
  "fmul (Finite a) b = round_double (a * b)"
| "fmul DivisionByZero b = DivisionByZero"
| "fmul Overflow b = Overflow"

text \<open>
  What the statistics loop prints for one flow: the packet loss, the mean delay and the mean
  jitter, each \<open>None\<close> when the line is not printed.
\<close>

record flow_report =
  packetLoss :: "double option"
  meanDelay :: "double option"
  meanJitter :: "double option"

text \<open>
  exercise02, \<open>main\<close>, the body of the loop over the flows:
  \<^verbatim>\<open>(txPackets - rxPackets) * 100.0 / txPackets\<close> printed as a percentage, and, when
  \<open>rxPackets > 0\<close>, \<^verbatim>\<open>delaySum.GetSeconds() / rxPackets * 1000\<close> and
  \<^verbatim>\<open>jitterSum.GetSeconds() / (rxPackets - 1) * 1000\<close> in milliseconds.
\<close>

definition triangular_flow_report :: "FlowStats \<Rightarrow> flow_report" where
  "triangular_flow_report f =
     \<lparr> packetLoss =
         Some (fdiv (fmul (Finite (of_uint32 (txPackets f - rxPackets f))) 100)
                    (of_uint32 (txPackets f))),
       meanDelay =
         (if 0 < rxPackets f
          then Some (fmul (fdiv (Finite (delaySum f)) (of_uint32 (rxPackets f))) 1000)
          else None),
       meanJitter =
         (if 0 < rxPackets f
          then Some (fmul (fdiv (Finite (jitterSum f)) (of_uint32 (rxPackets f - 1))) 1000)
          else None) \<rparr>"

text \<open>
  exercise03, \<open>main\<close>, the body of the loop over the flows: when \<open>txPackets > 0\<close>,
  \<^verbatim>\<open>100.0 * (txPackets - rxPackets) / txPackets\<close> printed as a percentage, and inside it,
  when \<open>rxPackets > 0\<close>, \<^verbatim>\<open>delaySum.GetSeconds() / rxPackets\<close> and
  \<^verbatim>\<open>jitterSum.GetSeconds() / (rxPackets - 1)\<close> in seconds.
\<close>

definition regionalbank_flow_report :: "FlowStats \<Rightarrow> flow_report" where
  "regionalbank_flow_report f =
     (if 0 < txPackets f then
        \<lparr> packetLoss =
            Some (fdiv (fmul (Finite 100) (of_uint32 (txPackets f - rxPackets f)))
                       (of_uint32 (txPackets f))),
          meanDelay =
            (if 0 < rxPackets f
             then Some (fdiv (Finite (delaySum f)) (of_uint32 (rxPackets f)))
             else None),
          meanJitter =
            (if 0 < rxPackets f
             then Some (fdiv (Finite (jitterSum f)) (of_uint32 (rxPackets f - 1)))
             else None) \<rparr>
      else \<lparr> packetLoss = None, meanDelay = None, meanJitter = None \<rparr>)"

text \<open>
  exercise05, \<open>main\<close>, the averages over the flows of one traffic class:
  \<^verbatim>\<open>(rx > 0) ? (totalDelay / rx * 1000.0) : 0\<close>,
  \<^verbatim>\<open>(rx > 1) ? (totalJitter / (rx - 1) * 1000.0) : 0\<close> and
  \<^verbatim>\<open>(tx > 0) ? ((tx - rx) * 100.0 / tx) : 0\<close>.
\<close>

definition qos_avg_delay :: "rat \<Rightarrow> uint32 \<Rightarrow> double" where
  "qos_avg_delay totalDelay rx =
     (if 0 < rx then fmul (fdiv (Finite totalDelay) (of_uint32 rx)) 1000 else Finite 0)"

definition qos_avg_jitter :: "rat \<Rightarrow> uint32 \<Rightarrow> double" where
  "qos_avg_jitter totalJitter rx =
     (if 1 < rx then fmul (fdiv (Finite totalJitter) (of_uint32 (rx - 1))) 1000
      else Finite 0)"

definition qos_loss_rate :: "uint32 \<Rightarrow> uint32 \<Rightarrow> double" where
  "qos_loss_rate tx rx =
     (if 0 < tx then fdiv (fmul (Finite (of_uint32 (tx - rx))) 100) (of_uint32 tx)
      else Finite 0)"

section \<open>exercise05: the VoIP application\<close>

text \<open>
  The socket is the framework's. The model keeps what the application sets and does on it:
  the ToS byte, whether \<open>Close\<close> was called, and the calls of \<open>Send\<close> (packet size and the
  timestamp tagged on the packet), in order.
\<close>

record Socket =
  ipTos :: "8 word"
  closed :: bool
  send_calls :: "(uint32 \<times> int) list"

definition Send :: "uint32 \<Rightarrow> int \<Rightarrow> Socket \<Rightarrow> Socket" where
  "Send packetSize timestamp sock =
     sock\<lparr> send_calls := send_calls sock @ [(packetSize, timestamp)] \<rparr>"

definition Close :: "Socket \<Rightarrow> Socket" where
  "Close sock = sock\<lparr> closed := True \<rparr>"

text \<open>
  The members of \<open>VoipApplication\<close>. An \<open>EventId\<close> is the handle \<open>schedule\<close> returned, or
  \<open>None\<close> for the default-constructed one; \<open>m_socket\<close> is \<open>None\<close> for the null pointer.
\<close>

record VoipApplication =
  m_socket :: "Socket option"
  m_peer :: "uint32 \<times> 16 word"
  m_packetSize :: uint32
  m_interval :: int
  m_sendEvent :: "nat option"
  m_running :: bool
  m_packetsSent :: uint32
  m_dscp :: "8 word"

definition VoipApplication_new :: VoipApplication where
  "VoipApplication_new =
     \<lparr> m_socket = None, m_peer = (0, 0), m_packetSize = 0, m_interval = 1000000000,
       m_sendEvent = None, m_running = False, m_packetsSent = 0, m_dscp = 0 \<rparr>"

definition Setup ::
    "uint32 \<times> 16 word \<Rightarrow> uint32 \<Rightarrow> int \<Rightarrow> int \<Rightarrow> int \<Rightarrow> 8 word \<Rightarrow> VoipApplication \<Rightarrow> VoipApplication" where
  "Setup address packetSize interval startTime stopTime dscp app =
     app\<lparr> m_peer := address, m_packetSize := packetSize, m_interval := interval, m_dscp := dscp \<rparr>"

text \<open>
  The events of a run: the application's send event, and the events of the rest of the
  simulation, which leave the application alone.
\<close>

datatype voip_event = SendPacketEv | OtherEv nat

type_synonym voip_world = "(voip_event, VoipApplication) world"

text \<open>
  \<open>Simulator::Cancel(id)\<close> on an \<open>EventId\<close>. \<open>ScheduleTx\<close>: when \<open>m_running\<close>,
  \<open>m_sendEvent = Simulator::Schedule(m_interval, &SendPacket, this)\<close>; a rejected call
  (negative interval) enqueues nothing and hands out no handle.
\<close>

definition SimulatorCancel :: "nat option \<Rightarrow> 'a scheduler \<Rightarrow> 'a scheduler" where
  "SimulatorCancel eventId s = (case eventId of None \<Rightarrow> s | Some h \<Rightarrow> cancel h s)"

definition ScheduleTx :: "voip_world \<Rightarrow> voip_world" where
  "ScheduleTx w =
     (if m_running (user w) then
        (case schedule (m_interval (user w)) SendPacketEv (sched w) of
           Inl err \<Rightarrow> w
         | Inr (h, s') \<Rightarrow> w\<lparr> sched := s', user := (user w)\<lparr> m_sendEvent := Some h \<rparr> \<rparr>)
      else w)"

text \<open>
  \<open>SendPacket\<close>: create the packet, tag it with \<open>Simulator::Now()\<close>, \<open>m_socket->Send(packet)\<close>,
  \<open>++m_packetsSent\<close>, \<open>ScheduleTx()\<close>. It is scheduled only by \<open>ScheduleTx\<close>, after
  \<open>StartApplication\<close> has created the socket; with a null \<open>m_socket\<close>, where the source
  would dereference a null pointer, the model records no \<open>Send\<close> call.
\<close>

definition SendPacket :: "voip_world \<Rightarrow> voip_world" where
  "SendPacket w =
     ScheduleTx
       (w\<lparr> user := (user w)
             \<lparr> m_socket := map_option (Send (m_packetSize (user w)) (now (sched w)))
                              (m_socket (user w)),
               m_packetsSent := m_packetsSent (user w) + 1 \<rparr> \<rparr>)"

text \<open>
  \<open>StartApplication\<close>: \<open>m_running = true\<close>, \<open>m_packetsSent = 0\<close>, create and connect the
  socket if there is none and set its ToS to \<open>m_dscp << 2\<close>, then \<open>ScheduleTx()\<close>.
\<close>

definition StartApplication :: "voip_world \<Rightarrow> voip_world" where
  "StartApplication w =
     (let a = (user w)\<lparr> m_running := True, m_packetsSent := 0 \<rparr>;
          a' = (if m_socket a = None
                then a\<lparr> m_socket := Some \<lparr> ipTos = push_bit 2 (m_dscp a), closed = False,
                                            send_calls = [] \<rparr> \<rparr>
                else a)
      in ScheduleTx (w\<lparr> user := a' \<rparr>))"

text \<open>
  \<open>StopApplication\<close>: \<open>m_running = false\<close>; \<open>if (m_sendEvent.IsPending())
  Simulator::Cancel(m_sendEvent)\<close>; \<open>if (m_socket) m_socket->Close()\<close>.
\<close>

definition StopApplication :: "voip_world \<Rightarrow> voip_world" where
  "StopApplication w =
     (let a = (user w)\<lparr> m_running := False \<rparr>;
          s = (if IsPending (m_sendEvent a) (sched w)
               then SimulatorCancel (m_sendEvent a) (sched w)
               else sched w)
      in \<lparr> sched = s, user = a\<lparr> m_socket := map_option Close (m_socket a) \<rparr> \<rparr>)"

fun voip_handler :: "(voip_event, VoipApplication) handler" where
  "voip_handler SendPacketEv w = SendPacket w"
| "voip_handler (OtherEv n) w = w"

text \<open>
  \<open>send_pending s\<close>: the queue holds a send event that is not cancelled. \<open>voip_inv w\<close>: the
  scheduler's queue invariant holds and every send event of the queue that is not cancelled
  is the one \<open>m_sendEvent\<close> names.
\<close>

definition send_pending :: "voip_event scheduler \<Rightarrow> bool" where
  "send_pending s = list_ex (\<lambda>e. action e = SendPacketEv \<and> \<not> cancelled e) (queue s)"

definition voip_inv :: "voip_world \<Rightarrow> bool" where
  "voip_inv w =
     (sched_inv (sched w)
      \<and> list_all (\<lambda>e. action e = SendPacketEv \<and> \<not> cancelled e
                        \<longrightarrow> m_sendEvent (user w) = Some (insertion_sequence e))
           (queue (sched w)))"

text \<open>
  The VoIP application as \<open>main\<close> of exercise05 sets it up (160-byte packets every 20 ms to
  \<open>10.1.2.2:5000\<close>, DSCP 46), on an otherwise empty simulation.
\<close>

definition voip_initial :: voip_world where
  "voip_initial =
     \<lparr> sched = initial_scheduler,
       user = Setup (Ipv4Address 10 1 2 2, 5000) 160 20000000 1000000000 14000000000 46
                VoipApplication_new \<rparr>"

section \<open>exercise06: the attacker topology\<close>

text \<open>
  \<open>NodeContainer::Create(n)\<close> is the framework's: it appends \<open>n\<close> freshly numbered nodes to
  the container. Nodes are their ids; \<open>first\<close> is the id of the next node of the run.
\<close>

definition Create :: "nat \<Rightarrow> nat \<Rightarrow> nat list" where
  "Create first n = [first ..< first + n]"

record wan_security_topology =
  numAttackers_used :: uint32
  nodes :: "nat list"
  attackers :: "nat list"
  attackDevicePairs :: "(nat \<times> nat) list"
  attackNetworks :: "uint32 list"

text \<open>
  \<open>main\<close> of exercise06 up to the address assignment, as a function of the value the
  command line left in \<open>numAttackers\<close>:
  \<^verbatim>\<open>numAttackers = std::min(numAttackers, (uint32_t)5);\<close>, then \<open>nodes.Create(3)\<close>,
  \<open>attackers.Create(numAttackers)\<close>, one point-to-point link router--attacker per
  \<open>i < numAttackers\<close>, and one subnet \<open>10.1.(3+i).0\<close> per \<open>i < numAttackers\<close>.
\<close>

definition wan_security_setup :: "uint32 \<Rightarrow> wan_security_topology" where
  "wan_security_setup cmdline_attackers =
     (let numAttackers = min cmdline_attackers (5 :: uint32);
          nodes = Create 0 3;
          n1 = nodes ! 1;
          attackers = Create 3 (unat numAttackers);
          attackDevicePairs = map (\<lambda>i. (n1, attackers ! i)) [0 ..< unat numAttackers];
          ifaceAttack = map (\<lambda>i. Ipv4Address 10 1 (3 + of_nat i) 0) [0 ..< unat numAttackers]
      in \<lparr> numAttackers_used = numAttackers, nodes = nodes, attackers = attackers,
           attackDevicePairs = attackDevicePairs, attackNetworks = ifaceAttack \<rparr>)"

section \<open>Properties of the routing lookup\<close>

lemma preferred_trans: "preferred a b \<Longrightarrow> preferred b c \<Longrightarrow> preferred a c"
  by (auto simp: preferred_def)

lemma preferred_not_trans: "preferred a b \<Longrightarrow> \<not> preferred c b \<Longrightarrow> preferred a c"
  by (auto simp: preferred_def)

lemma not_preferred_trans: "\<not> preferred a b \<Longrightarrow> \<not> preferred b c \<Longrightarrow> \<not> preferred a c"
  by (auto simp: preferred_def)

lemma preferred_irrefl: "\<not> preferred a a"
  by (simp add: preferred_def)

lemma select_route_split:
  "\<exists>pre post. b # es = pre @ select_route b es # post
      \<and> (\<forall>x\<in>set pre. preferred (select_route b es) x)
      \<and> (\<forall>x\<in>set post. \<not> preferred x (select_route b es))"
proof (induction es arbitrary: b)
  case Nil
  show ?case by (rule exI [of _ "[]"], rule exI [of _ "[]"]) (simp add: preferred_irrefl)
next
  case (Cons x es)
  let ?r = "select_route b (x # es)"
  show ?case
  proof (cases "preferred x b")
    case True
    then have r: "?r = select_route x es" by simp
    from Cons.IH [of x] obtain pre post where
      d: "x # es = pre @ select_route x es # post"
      and p: "\<forall>y\<in>set pre. preferred (select_route x es) y"
      and q: "\<forall>y\<in>set post. \<not> preferred y (select_route x es)" by blast
    have "preferred (select_route x es) b"
    proof (cases pre)
      case Nil
      with d have "x = select_route x es" by (metis append_Nil list.inject)
      with True show ?thesis by metis
    next
      case (Cons y ys)
      with d have "x \<in> set pre" by simp
      with p have "preferred (select_route x es) x" by blast
      with True show ?thesis by (blast intro: preferred_trans)
    qed
    with p have "\<forall>y\<in>set (b # pre). preferred ?r y" using r by simp
    moreover have "b # x # es = (b # pre) @ ?r # post" using d r by simp
    ultimately show ?thesis using q r by metis
  next
    case False
    then have r: "?r = select_route b es" by simp
    from Cons.IH [of b] obtain pre post where
      d: "b # es = pre @ select_route b es # post"
      and p: "\<forall>y\<in>set pre. preferred (select_route b es) y"
      and q: "\<forall>y\<in>set post. \<not> preferred y (select_route b es)" by blast
    show ?thesis
    proof (cases pre)
      case Nil
      with d have rb: "select_route b es = b" and pe: "post = es"
        by (metis append_Nil list.inject)+
      have rr: "?r = b" using r rb by simp
      have "\<forall>y\<in>set (x # es). \<not> preferred y b" using q rb pe False by simp
      then show ?thesis
        unfolding rr by (intro exI [of _ "[]"] exI [of _ "x # es"]) simp
    next
      case (Cons y ys)
      with d have yb: "y = b" and es: "es = ys @ select_route b es # post" by auto
      with p Cons have "preferred (select_route b es) b" by simp
      with False have "preferred (select_route b es) x" by (blast intro: preferred_not_trans)
      with p Cons yb have "\<forall>z\<in>set (b # x # ys). preferred ?r z" using r by simp
      moreover have "b # x # es = (b # x # ys) @ ?r # post" using es r by simp
      ultimately show ?thesis using q r by metis
    qed
  qed
qed


lemma filter_eq_append_ConsD:
  "filter P ys = pre @ r # post \<Longrightarrow>
     \<exists>us vs. ys = us @ r # vs \<and> filter P us = pre \<and> filter P vs = post \<and> P r"
proof (induction pre arbitrary: ys)
  case Nil
  then have "filter P ys = r # post" by simp
  then obtain us vs where "ys = us @ r # vs" "\<forall>u\<in>set us. \<not> P u" "P r" "post = filter P vs"
    by (auto dest: filter_eq_ConsD)
  then show ?case by (intro exI [of _ us] exI [of _ vs]) simp
next
  case (Cons y pre)
  then have "filter P ys = y # (pre @ r # post)" by simp
  then obtain us vs where a: "ys = us @ y # vs" "\<forall>u\<in>set us. \<not> P u" "P y"
      "pre @ r # post = filter P vs"
    by (auto dest: filter_eq_ConsD)
  from Cons.IH [of vs] a(4) obtain us' vs' where
    b: "vs = us' @ r # vs'" "filter P us' = pre" "filter P vs' = post" "P r" by metis
  show ?case
    using a b by (intro exI [of _ "us @ y # us'"] exI [of _ vs']) simp
qed

lemma lookup_entry_None: "lookup_entry rt a = None \<longleftrightarrow> (\<forall>e\<in>set rt. \<not> contains_address e a)"
  by (simp add: lookup_entry_def filter_empty_conv [symmetric] split: list.splits)

lemma lookup_entry_split:
  assumes "lookup_entry rt a = Some e"
  shows "\<exists>pre post. rt = pre @ e # post \<and> contains_address e a
           \<and> (\<forall>x\<in>set pre. contains_address x a \<longrightarrow> preferred e x)
           \<and> (\<forall>x\<in>set post. contains_address x a \<longrightarrow> \<not> preferred x e)"
proof -
  from assms obtain m ms where f: "filter (\<lambda>e. contains_address e a) rt = m # ms"
    and e: "e = select_route m ms"
    by (auto simp: lookup_entry_def split: list.splits)
  from select_route_split [of m ms] e obtain pre post where
    d: "m # ms = pre @ e # post" and p: "\<forall>x\<in>set pre. preferred e x"
    and q: "\<forall>x\<in>set post. \<not> preferred x e" by blast
  from f d have "filter (\<lambda>e. contains_address e a) rt = pre @ e # post" by simp
  from filter_eq_append_ConsD [OF this] obtain us vs where
    g: "rt = us @ e # vs" "filter (\<lambda>e. contains_address e a) us = pre"
       "filter (\<lambda>e. contains_address e a) vs = post" "contains_address e a" by blast
  have "\<forall>x\<in>set us. contains_address x a \<longrightarrow> preferred e x" using p g(2) by auto
  moreover have "\<forall>x\<in>set vs. contains_address x a \<longrightarrow> \<not> preferred x e" using q g(3) by auto
  ultimately show ?thesis using g(1,4) by blast
qed

lemma preferred_prefix_metric:
  "preferred e x \<longleftrightarrow>
     GetPrefixLength (destNetworkMask x) < GetPrefixLength (destNetworkMask e)
     \<or> (GetPrefixLength (destNetworkMask x) = GetPrefixLength (destNetworkMask e)
         \<and> metric e < metric x)"
  by (auto simp: preferred_def)

text \<open>
  C1. For every routing table and destination address: the lookup is \<open>Unreachable\<close>
  exactly when no entry contains the address; otherwise the entry it returns contains the
  address, no matching entry has a longer prefix, no matching entry of the same prefix
  length has a lower metric, and no matching entry inserted earlier has the same prefix
  length and the same metric. In particular, with two routes to one network, of metrics 10
  and 50 in either order, an address of that network is routed to the metric-10 next hop.
\<close>

theorem C1_lookup_longest_prefix_lowest_metric_earliest:
  "(lookup rt a = Inl Unreachable \<longleftrightarrow> (\<forall>e\<in>set rt. \<not> contains_address e a))
   \<and> (\<forall>e. lookup_entry rt a = Some e \<longrightarrow>
         lookup rt a = Inr (nextHop e, interface e)
         \<and> (\<exists>pre post. rt = pre @ e # post \<and> contains_address e a
               \<and> (\<forall>x\<in>set rt. contains_address x a \<longrightarrow>
                     GetPrefixLength (destNetworkMask x) \<le> GetPrefixLength (destNetworkMask e))
               \<and> (\<forall>x\<in>set rt. contains_address x a
                       \<and> GetPrefixLength (destNetworkMask x) = GetPrefixLength (destNetworkMask e)
                     \<longrightarrow> metric e \<le> metric x)
               \<and> (\<forall>x\<in>set pre. contains_address x a
                       \<and> GetPrefixLength (destNetworkMask x) = GetPrefixLength (destNetworkMask e)
                     \<longrightarrow> metric x \<noteq> metric e)))
   \<and> (a AND msk = net AND msk \<longrightarrow>
         lookup [\<lparr> destNetwork = net, destNetworkMask = msk, nextHop = nh1, interface = if1, metric = 10 \<rparr>,
                 \<lparr> destNetwork = net, destNetworkMask = msk, nextHop = nh2, interface = if2, metric = 50 \<rparr>] a
           = Inr (nh1, if1)
         \<and> lookup [\<lparr> destNetwork = net, destNetworkMask = msk, nextHop = nh2, interface = if2, metric = 50 \<rparr>,
                   \<lparr> destNetwork = net, destNetworkMask = msk, nextHop = nh1, interface = if1, metric = 10 \<rparr>] a
           = Inr (nh1, if1))"
proof (intro conjI allI impI)
  show "lookup rt a = Inl Unreachable \<longleftrightarrow> (\<forall>e\<in>set rt. \<not> contains_address e a)"
    using lookup_entry_None [of rt a] by (cases "lookup_entry rt a") (auto simp: lookup_def)
next
  fix e assume "lookup_entry rt a = Some e"
  then show "lookup rt a = Inr (nextHop e, interface e)" by (simp add: lookup_def)
next
  fix e assume e: "lookup_entry rt a = Some e"
  from lookup_entry_split [OF e] obtain pre post where
    d: "rt = pre @ e # post" and c: "contains_address e a"
    and p: "\<forall>x\<in>set pre. contains_address x a \<longrightarrow> preferred e x"
    and q: "\<forall>x\<in>set post. contains_address x a \<longrightarrow> \<not> preferred x e" by blast
  have all: "\<forall>x\<in>set rt. contains_address x a \<longrightarrow> \<not> preferred x e"
  proof (intro ballI impI)
    fix x assume "x \<in> set rt" "contains_address x a"
    with d consider "x \<in> set pre" | "x = e" | "x \<in> set post" by auto
    then show "\<not> preferred x e"
    proof cases
      case 1
      with p \<open>contains_address x a\<close> have "preferred e x" by blast
      then show ?thesis by (auto simp: preferred_def)
    next
      case 2
      then show ?thesis by (simp add: preferred_irrefl)
    next
      case 3
      with q \<open>contains_address x a\<close> show ?thesis by blast
    qed
  qed
  have l: "\<forall>x\<in>set rt. contains_address x a \<longrightarrow>
             GetPrefixLength (destNetworkMask x) \<le> GetPrefixLength (destNetworkMask e)"
    using all by (auto simp: preferred_def)
  have m: "\<forall>x\<in>set rt. contains_address x a
             \<and> GetPrefixLength (destNetworkMask x) = GetPrefixLength (destNetworkMask e)
             \<longrightarrow> metric e \<le> metric x"
    using all by (auto simp: preferred_def)
  have f: "\<forall>x\<in>set pre. contains_address x a
             \<and> GetPrefixLength (destNetworkMask x) = GetPrefixLength (destNetworkMask e)
             \<longrightarrow> metric x \<noteq> metric e"
    using p by (auto simp: preferred_prefix_metric)
  show "\<exists>pre post. rt = pre @ e # post \<and> contains_address e a
          \<and> (\<forall>x\<in>set rt. contains_address x a \<longrightarrow>
                GetPrefixLength (destNetworkMask x) \<le> GetPrefixLength (destNetworkMask e))
          \<and> (\<forall>x\<in>set rt. contains_address x a
                  \<and> GetPrefixLength (destNetworkMask x) = GetPrefixLength (destNetworkMask e)
                \<longrightarrow> metric e \<le> metric x)
          \<and> (\<forall>x\<in>set pre. contains_address x a
                  \<and> GetPrefixLength (destNetworkMask x) = GetPrefixLength (destNetworkMask e)
                \<longrightarrow> metric x \<noteq> metric e)"
    using d c l m f by blast
next
  assume "a AND msk = net AND msk"
  then show "lookup [\<lparr> destNetwork = net, destNetworkMask = msk, nextHop = nh1, interface = if1, metric = 10 \<rparr>,
                 \<lparr> destNetwork = net, destNetworkMask = msk, nextHop = nh2, interface = if2, metric = 50 \<rparr>] a
           = Inr (nh1, if1)"
    by (simp add: lookup_def lookup_entry_def contains_address_def preferred_def)
next
  assume "a AND msk = net AND msk"
  then show "lookup [\<lparr> destNetwork = net, destNetworkMask = msk, nextHop = nh2, interface = if2, metric = 50 \<rparr>,
                   \<lparr> destNetwork = net, destNetworkMask = msk, nextHop = nh1, interface = if1, metric = 10 \<rparr>] a
           = Inr (nh1, if1)"
    by (simp add: lookup_def lookup_entry_def contains_address_def preferred_def)
qed

lemma routingDCA_manual_failover_entries:
  "routingDCA_manual_failover =
     [\<lparr> destNetwork = Ipv4Address 10 1 4 0, destNetworkMask = Ipv4Mask 255 255 255 0,
        nextHop = Ipv4Address 10 1 4 2, interface = 2, metric = 10 \<rparr>,
      \<lparr> destNetwork = Ipv4Address 10 1 4 0, destNetworkMask = Ipv4Mask 255 255 255 0,
        nextHop = Ipv4Address 10 1 3 2, interface = 3, metric = 50 \<rparr>,
      \<lparr> destNetwork = Ipv4Address 10 1 4 0, destNetworkMask = Ipv4Mask 255 255 255 0,
        nextHop = Ipv4Address 10 1 5 2, interface = 4, metric = 100 \<rparr>]"
  by code_simp

lemma lookup_entry_DCA_manual_failover:
  "lookup_entry routingDCA_manual_failover (Ipv4Address 10 1 4 2) =
     Some \<lparr> destNetwork = Ipv4Address 10 1 4 0, destNetworkMask = Ipv4Mask 255 255 255 0,
            nextHop = Ipv4Address 10 1 4 2, interface = 2, metric = 10 \<rparr>"
  by code_simp

lemma lookup_staticRoutingHQ:
  "lookup staticRoutingHQ (Ipv4Address 10 1 3 2) = Inr (Ipv4Address 10 1 1 2, 1)"
  by code_simp

theorem C1_lookup_witness:
  "lookup_entry routingDCA_manual_failover (Ipv4Address 10 1 4 2) =
     Some \<lparr> destNetwork = Ipv4Address 10 1 4 0, destNetworkMask = Ipv4Mask 255 255 255 0,
            nextHop = Ipv4Address 10 1 4 2, interface = 2, metric = 10 \<rparr>
   \<and> lookup routingDCA_manual_failover (Ipv4Address 10 1 4 2) = Inr (Ipv4Address 10 1 4 2, 2)
   \<and> (\<exists>e\<in>set routingDCA_manual_failover. contains_address e (Ipv4Address 10 1 4 2))
   \<and> Ipv4Address 10 1 4 2 AND Ipv4Mask 255 255 255 0
        = Ipv4Address 10 1 4 0 AND Ipv4Mask 255 255 255 0
   \<and> lookup [\<lparr> destNetwork = Ipv4Address 10 1 4 0, destNetworkMask = Ipv4Mask 255 255 255 0,
               nextHop = Ipv4Address 10 1 3 2, interface = 3, metric = 50 \<rparr>,
             \<lparr> destNetwork = Ipv4Address 10 1 4 0, destNetworkMask = Ipv4Mask 255 255 255 0,
               nextHop = Ipv4Address 10 1 4 2, interface = 2, metric = 10 \<rparr>]
        (Ipv4Address 10 1 4 2) = Inr (Ipv4Address 10 1 4 2, 2)"
proof -
  let ?a = "Ipv4Address 10 1 4 2"
  let ?e = "\<lparr> destNetwork = Ipv4Address 10 1 4 0, destNetworkMask = Ipv4Mask 255 255 255 0,
             nextHop = Ipv4Address 10 1 4 2, interface = 2, metric = 10 \<rparr>"
  note inst = C1_lookup_longest_prefix_lowest_metric_earliest
    [of routingDCA_manual_failover ?a "Ipv4Mask 255 255 255 0" "Ipv4Address 10 1 4 0"
        "Ipv4Address 10 1 4 2" 2 "Ipv4Address 10 1 3 2" 3]
  have h1: "lookup_entry routingDCA_manual_failover ?a = Some ?e"
    by (rule lookup_entry_DCA_manual_failover)
  have h2: "?a AND Ipv4Mask 255 255 255 0 = Ipv4Address 10 1 4 0 AND Ipv4Mask 255 255 255 0"
    by (simp add: Ipv4Address_def Ipv4Mask_def)
  from inst h1 have r: "lookup routingDCA_manual_failover ?a = Inr (nextHop ?e, interface ?e)"
    by blast
  then have "lookup routingDCA_manual_failover ?a \<noteq> Inl Unreachable" by simp
  with inst have m: "\<exists>e\<in>set routingDCA_manual_failover. contains_address e ?a" by blast
  from inst h2 have
    "lookup [\<lparr> destNetwork = Ipv4Address 10 1 4 0, destNetworkMask = Ipv4Mask 255 255 255 0,
               nextHop = Ipv4Address 10 1 3 2, interface = 3, metric = 50 \<rparr>,
             \<lparr> destNetwork = Ipv4Address 10 1 4 0, destNetworkMask = Ipv4Mask 255 255 255 0,
               nextHop = Ipv4Address 10 1 4 2, interface = 2, metric = 10 \<rparr>] ?a
       = Inr (Ipv4Address 10 1 4 2, 2)" by blast
  with h1 h2 r m show ?thesis by simp
qed

section \<open>Properties of the scheduler\<close>

lemma event_before_trans: "event_before x y \<Longrightarrow> event_before y z \<Longrightarrow> event_before x z"
  by (auto simp: event_before_def)

lemma event_before_time: "event_before x y \<Longrightarrow> scheduled_time x \<le> scheduled_time y"
  by (auto simp: event_before_def)

lemma event_before_total:
  "insertion_sequence x \<noteq> insertion_sequence y \<Longrightarrow> \<not> event_before x y \<Longrightarrow> event_before y x"
  by (auto simp: event_before_def)

lemma set_enqueue: "set (enqueue e xs) = insert e (set xs)"
  by (induction xs) auto

lemma sorted_enqueue:
  "sorted_wrt event_before xs \<Longrightarrow> \<forall>x\<in>set xs. insertion_sequence x \<noteq> insertion_sequence e \<Longrightarrow>
     sorted_wrt event_before (enqueue e xs)"
proof (induction xs)
  case Nil
  show ?case by simp
next
  case (Cons x xs)
  show ?case
  proof (cases "event_before e x")
    case True
    with Cons.prems(1) have "\<forall>y\<in>set xs. event_before e y"
      by (auto intro: event_before_trans)
    with True Cons.prems(1) show ?thesis by simp
  next
    case False
    with Cons.prems(2) have "event_before x e" by (simp add: event_before_total)
    with False Cons show ?thesis by (simp add: set_enqueue)
  qed
qed

lemma map_seq_enqueue:
  "distinct (map insertion_sequence xs) \<Longrightarrow> insertion_sequence e \<notin> insertion_sequence ` set xs \<Longrightarrow>
     distinct (map insertion_sequence (enqueue e xs))"
  by (induction xs) (auto simp: set_enqueue)

lemma sched_inv_schedule:
  assumes "sched_inv s" "schedule delay a s = Inr (h, s')"
  shows "sched_inv s'"
proof -
  from assms(2) have d: "0 \<le> delay" and
    s': "s' = s\<lparr> next_sequence := Suc (next_sequence s),
                 queue := enqueue \<lparr> scheduled_time = clock s + delay,
                                    insertion_sequence = next_sequence s,
                                    action = a, cancelled = False \<rparr> (queue s) \<rparr>"
    by (auto simp: schedule_def split: if_splits)
  let ?e = "\<lparr> scheduled_time = clock s + delay, insertion_sequence = next_sequence s,
              action = a, cancelled = False \<rparr>"
  from assms(1) have a: "sorted_wrt event_before (queue s)"
    and b: "\<forall>e\<in>set (queue s). clock s \<le> scheduled_time e \<and> insertion_sequence e < next_sequence s"
    and c: "distinct (map insertion_sequence (queue s))"
    by (auto simp: sched_inv_def list_all_iff)
  from b have ne: "\<forall>x\<in>set (queue s). insertion_sequence x \<noteq> insertion_sequence ?e" by auto
  have "sorted_wrt event_before (enqueue ?e (queue s))"
    using a ne by (rule sorted_enqueue)
  moreover have "distinct (map insertion_sequence (enqueue ?e (queue s)))"
    using c ne by (intro map_seq_enqueue) auto
  moreover have "\<forall>e\<in>set (enqueue ?e (queue s)).
      clock s \<le> scheduled_time e \<and> insertion_sequence e < Suc (next_sequence s)"
    using b d by (auto simp: set_enqueue less_Suc_eq)
  ultimately show ?thesis by (simp add: s' sched_inv_def list_all_iff)
qed

lemma mark_cancelled_simps [simp]:
  "scheduled_time (mark_cancelled h e) = scheduled_time e"
  "insertion_sequence (mark_cancelled h e) = insertion_sequence e"
  "action (mark_cancelled h e) = action e"
  "event_before (mark_cancelled h x) (mark_cancelled h y) = event_before x y"
  by (simp_all add: mark_cancelled_def event_before_def)

lemma cancel_mark: "cancel h s = s\<lparr> queue := map (mark_cancelled h) (queue s) \<rparr>"
  by (rule cancel_def)

lemma sched_inv_cancel: "sched_inv s \<Longrightarrow> sched_inv (cancel h s)"
  by (simp add: sched_inv_def cancel_mark list_all_iff sorted_wrt_map comp_def)

lemma clock_schedule: "schedule delay a s = Inr (h, s') \<Longrightarrow> clock s' = clock s"
  by (auto simp: schedule_def split: if_splits)

lemma clock_cancel: "clock (cancel h s) = clock s"
  by (simp add: cancel_def)

lemma behind_schedule:
  assumes "behind e s" "schedule delay a s = Inr (h, s')"
  shows "behind e s'"
proof -
  from assms(2) have d: "0 \<le> delay" and
    s': "s' = s\<lparr> next_sequence := Suc (next_sequence s),
                 queue := enqueue \<lparr> scheduled_time = clock s + delay,
                                    insertion_sequence = next_sequence s,
                                    action = a, cancelled = False \<rparr> (queue s) \<rparr>"
    by (auto simp: schedule_def split: if_splits)
  from assms(1) d show ?thesis
    by (auto simp: behind_def s' set_enqueue event_before_def list_all_iff)
qed

lemma behind_cancel: "behind e s \<Longrightarrow> behind e (cancel h s)"
  by (auto simp: behind_def cancel_mark mark_cancelled_def event_before_def list_all_iff)

lemma api_reach_inv:
  "api_reach w w' \<Longrightarrow> sched_inv (sched w) \<Longrightarrow> sched_inv (sched w')"
  by (induction rule: api_reach.induct) (auto intro: sched_inv_schedule sched_inv_cancel)

lemma api_reach_clock: "api_reach w w' \<Longrightarrow> clock (sched w') = clock (sched w)"
  by (induction rule: api_reach.induct) (auto simp: clock_schedule clock_cancel)

lemma api_reach_behind: "api_reach w w' \<Longrightarrow> behind e (sched w) \<Longrightarrow> behind e (sched w')"
  by (induction rule: api_reach.induct) (auto intro: behind_schedule behind_cancel)

lemma sched_inv_pop:
  assumes "sched_inv s" "queue s = e # q"
  shows "sched_inv (s\<lparr> clock := scheduled_time e, queue := q \<rparr>)"
    and "behind e (s\<lparr> clock := scheduled_time e, queue := q \<rparr>)"
    and "clock s \<le> scheduled_time e"
  using assms by (auto simp: sched_inv_def behind_def list_all_iff dest: event_before_time)

lemma behind_pop:
  assumes "behind x s" "queue s = e # q"
  shows "behind x (s\<lparr> clock := scheduled_time e, queue := q \<rparr>)"
  using assms by (auto simp: behind_def list_all_iff dest: event_before_time)

lemma run_until_behind:
  assumes "api_only h"
  shows "sched_inv (sched w) \<Longrightarrow> behind x (sched w) \<Longrightarrow>
           (\<forall>y\<in>set (fst (run_until stop_time fuel h w)). event_before x (fst y))"
proof (induction fuel arbitrary: w)
  case 0
  show ?case by simp
next
  case (Suc fuel)
  show ?case
  proof (cases "queue (sched w)")
    case Nil
    then show ?thesis by simp
  next
    case (Cons e q)
    let ?w1 = "w\<lparr> sched := (sched w)\<lparr> clock := scheduled_time e, queue := q \<rparr> \<rparr>"
    have i1: "sched_inv (sched ?w1)" using sched_inv_pop(1) [OF Suc.prems(1) Cons] by simp
    have b1: "behind x (sched ?w1)" using behind_pop [OF Suc.prems(2) Cons] by simp
    have xe: "event_before x e" using Suc.prems(2) Cons by (simp add: behind_def list_all_iff)
    have r: "api_reach ?w1 (h (action e) ?w1)" using assms by (simp add: api_only_def)
    have i2: "sched_inv (sched (h (action e) ?w1))" using api_reach_inv [OF r i1] .
    have b2: "behind x (sched (h (action e) ?w1))" using api_reach_behind [OF r b1] .
    show ?thesis
      using Cons xe Suc.IH [OF i1 b1] Suc.IH [OF i2 b2]
      by (simp add: Let_def)
  qed
qed


lemma run_until_sorted:
  assumes "api_only h"
  shows "sched_inv (sched w) \<Longrightarrow>
           sorted_wrt (\<lambda>x y. event_before (fst x) (fst y)) (fst (run_until stop_time fuel h w))"
proof (induction fuel arbitrary: w)
  case 0
  show ?case by simp
next
  case (Suc fuel)
  show ?case
  proof (cases "queue (sched w)")
    case Nil
    then show ?thesis by simp
  next
    case (Cons e q)
    let ?w1 = "w\<lparr> sched := (sched w)\<lparr> clock := scheduled_time e, queue := q \<rparr> \<rparr>"
    have i1: "sched_inv (sched ?w1)" using sched_inv_pop(1) [OF Suc.prems(1) Cons] by simp
    have b1: "behind e (sched ?w1)" using sched_inv_pop(2) [OF Suc.prems(1) Cons] by simp
    have r: "api_reach ?w1 (h (action e) ?w1)" using assms by (simp add: api_only_def)
    have i2: "sched_inv (sched (h (action e) ?w1))" using api_reach_inv [OF r i1] .
    have b2: "behind e (sched (h (action e) ?w1))" using api_reach_behind [OF r b1] .
    show ?thesis
      using Cons Suc.IH [OF i1] Suc.IH [OF i2] run_until_behind [OF assms i2 b2]
      by (simp add: Let_def)
  qed
qed

lemma run_until_clock:
  assumes "api_only h"
  shows "sched_inv (sched w) \<Longrightarrow>
           clock (sched w) \<le> clock (sched (snd (run_until stop_time fuel h w)))
           \<and> (\<forall>x\<in>set (fst (run_until stop_time fuel h w)).
                 snd x = scheduled_time (fst x) \<and> clock (sched w) \<le> snd x
                 \<and> snd x \<le> clock (sched (snd (run_until stop_time fuel h w))))"
proof (induction fuel arbitrary: w)
  case 0
  show ?case by simp
next
  case (Suc fuel)
  show ?case
  proof (cases "queue (sched w)")
    case Nil
    then show ?thesis by simp
  next
    case (Cons e q)
    let ?w1 = "w\<lparr> sched := (sched w)\<lparr> clock := scheduled_time e, queue := q \<rparr> \<rparr>"
    let ?w2 = "h (action e) ?w1"
    have i1: "sched_inv (sched ?w1)" using sched_inv_pop(1) [OF Suc.prems(1) Cons] by simp
    have le: "clock (sched w) \<le> scheduled_time e" using sched_inv_pop(3) [OF Suc.prems(1) Cons] .
    have r: "api_reach ?w1 ?w2" using assms by (simp add: api_only_def)
    have i2: "sched_inv (sched ?w2)" using api_reach_inv [OF r i1] .
    have c2: "clock (sched ?w2) = scheduled_time e" using api_reach_clock [OF r] by simp
    show ?thesis
    proof (cases "stop_time < scheduled_time e")
      case True
      with Cons show ?thesis by simp
    next
      case False
      show ?thesis
      proof (cases "cancelled e")
        case True
        with Cons False le Suc.IH [OF i1] show ?thesis by (auto simp: Let_def)
      next
        case nc: False
        from Cons False nc le c2 Suc.IH [OF i2] show ?thesis
          by (auto simp: Let_def now_def)
      qed
    qed
  qed
qed

lemma enqueue_last: "\<forall>x\<in>set q. \<not> event_before e x \<Longrightarrow> enqueue e q = q @ [e]"
  by (induction q) auto

lemma schedule_all_same_delay:
  assumes "0 \<le> d"
  shows "\<forall>x\<in>set (queue s). scheduled_time x \<le> clock s + d \<and> insertion_sequence x < next_sequence s
     \<Longrightarrow> schedule_all (map (Pair d) as) s =
          s\<lparr> next_sequence := next_sequence s + length as,
             queue := queue s @ map (\<lambda>(i, a). \<lparr> scheduled_time = clock s + d, insertion_sequence = i,
                                               action = a, cancelled = False \<rparr>)
                                  (enumerate (next_sequence s) as) \<rparr>"
proof (induction as arbitrary: s)
  case Nil
  show ?case by simp
next
  case (Cons a as)
  let ?e = "\<lparr> scheduled_time = clock s + d, insertion_sequence = next_sequence s,
              action = a, cancelled = False \<rparr>"
  let ?s1 = "s\<lparr> next_sequence := Suc (next_sequence s), queue := queue s @ [?e] \<rparr>"
  have "\<forall>x\<in>set (queue s). \<not> event_before ?e x"
    using Cons.prems by (auto simp: event_before_def)
  then have q: "enqueue ?e (queue s) = queue s @ [?e]" by (rule enqueue_last)
  have s1: "schedule d a s = Inr (next_sequence s, ?s1)"
    using assms q by (simp add: schedule_def)
  have "\<forall>x\<in>set (queue ?s1). scheduled_time x \<le> clock ?s1 + d
          \<and> insertion_sequence x < next_sequence ?s1"
    using Cons.prems by (auto simp: less_Suc_eq)
  from Cons.IH [OF this] s1 show ?case by simp
qed

lemma run_until_inert_queue:
  assumes inert: "\<forall>a w. sched (h a w) = sched w"
  shows "queue (sched w) = q \<Longrightarrow> \<forall>e\<in>set q. \<not> cancelled e \<and> scheduled_time e \<le> stop_time \<Longrightarrow>
         length q \<le> fuel \<Longrightarrow>
           map fst (fst (run_until stop_time fuel h w)) = q
           \<and> queue (sched (snd (run_until stop_time fuel h w))) = []"
proof (induction q arbitrary: w fuel)
  case Nil
  then show ?case by (cases fuel) simp_all
next
  case (Cons e q)
  from Cons.prems(3) obtain f where f: "fuel = Suc f" and lf: "length q \<le> f"
    by (cases fuel) auto
  let ?w1 = "w\<lparr> sched := (sched w)\<lparr> clock := scheduled_time e, queue := q \<rparr> \<rparr>"
  have "queue (sched (h (action e) ?w1)) = q" using inert by simp
  from Cons.IH [OF this _ lf] Cons.prems(2)
  have "map fst (fst (run_until stop_time f h (h (action e) ?w1))) = q
        \<and> queue (sched (snd (run_until stop_time f h (h (action e) ?w1)))) = []" by simp
  with Cons.prems(1,2) show ?case by (simp add: f Let_def)
qed

lemma event_before_rel:
  "event_rel P x y \<Longrightarrow> event_rel P x' y' \<Longrightarrow> event_before x x' = event_before y y'"
  by (simp add: event_rel_def event_before_def)

lemma enqueue_rel:
  "list_all2 (event_rel P) q1 q2 \<Longrightarrow> event_rel P e1 e2 \<Longrightarrow>
     list_all2 (event_rel P) (enqueue e1 q1) (enqueue e2 q2)"
  by (induction rule: list_all2_induct) (auto simp: event_before_rel)

lemma schedule_rel:
  assumes "sched_rel P s1 s2" "P a b"
  shows "(schedule d a s1 = Inl InvalidDelay \<and> schedule d b s2 = Inl InvalidDelay)
         \<or> (\<exists>h s1' s2'. schedule d a s1 = Inr (h, s1') \<and> schedule d b s2 = Inr (h, s2')
               \<and> sched_rel P s1' s2')"
  using assms
  by (auto simp: schedule_def sched_rel_def event_rel_def intro!: enqueue_rel)

lemma schedule_all_rel:
  "list_all2 (call_rel P) c1 c2 \<Longrightarrow> sched_rel P s1 s2 \<Longrightarrow>
     sched_rel P (schedule_all c1 s1) (schedule_all c2 s2)"
proof (induction arbitrary: s1 s2 rule: list_all2_induct)
  case Nil
  then show ?case by simp
next
  case (Cons x xs y ys)
  obtain d a where x: "x = (d, a)" by (cases x)
  obtain d' b where y: "y = (d', b)" by (cases y)
  from Cons.hyps(1) x y have dd: "d' = d" and ab: "P a b" by (simp_all add: call_rel_def)
  from schedule_rel [OF Cons.prems ab, of d] show ?case
  proof
    assume "schedule d a s1 = Inl InvalidDelay \<and> schedule d b s2 = Inl InvalidDelay"
    with Cons.IH [OF Cons.prems] show ?thesis by (simp add: x y dd)
  next
    assume "\<exists>h s1' s2'. schedule d a s1 = Inr (h, s1') \<and> schedule d b s2 = Inr (h, s2')
               \<and> sched_rel P s1' s2'"
    then obtain h s1' s2' where "schedule d a s1 = Inr (h, s1')" "schedule d b s2 = Inr (h, s2')"
      "sched_rel P s1' s2'" by blast
    with Cons.IH [of s1' s2'] show ?thesis by (simp add: x y dd)
  qed
qed

lemma run_until_rel:
  assumes "handlers_correspond P Q h1 h2"
  shows "world_rel P Q w1 w2 \<Longrightarrow>
           list_all2 (executed_rel P) (fst (run_until stop_time fuel h1 w1))
                                      (fst (run_until stop_time fuel h2 w2))
           \<and> world_rel P Q (snd (run_until stop_time fuel h1 w1))
                           (snd (run_until stop_time fuel h2 w2))"
proof (induction fuel arbitrary: w1 w2)
  case 0
  then show ?case by simp
next
  case (Suc fuel)
  from Suc.prems have cl: "clock (sched w1) = clock (sched w2)"
    and ns: "next_sequence (sched w1) = next_sequence (sched w2)"
    and qs: "list_all2 (event_rel P) (queue (sched w1)) (queue (sched w2))"
    and us: "Q (user w1) (user w2)"
    by (simp_all add: world_rel_def sched_rel_def)
  show ?case
  proof (cases "queue (sched w1)")
    case Nil
    with qs have "queue (sched w2) = []" by simp
    with Nil Suc.prems show ?thesis by simp
  next
    case (Cons e1 q1)
    with qs obtain e2 q2 where q2: "queue (sched w2) = e2 # q2"
      and er: "event_rel P e1 e2" and qr: "list_all2 (event_rel P) q1 q2"
      by (auto simp: list_all2_Cons1)
    let ?v1 = "w1\<lparr> sched := (sched w1)\<lparr> clock := scheduled_time e1, queue := q1 \<rparr> \<rparr>"
    let ?v2 = "w2\<lparr> sched := (sched w2)\<lparr> clock := scheduled_time e2, queue := q2 \<rparr> \<rparr>"
    have t: "scheduled_time e1 = scheduled_time e2" and c: "cancelled e1 = cancelled e2"
      and p: "P (action e1) (action e2)"
      using er by (simp_all add: event_rel_def)
    have v: "world_rel P Q ?v1 ?v2"
      using ns qr us t by (simp add: world_rel_def sched_rel_def)
    show ?thesis
    proof (cases "stop_time < scheduled_time e1")
      case True
      with Cons q2 t Suc.prems show ?thesis by simp
    next
      case False
      show ?thesis
      proof (cases "cancelled e1")
        case True
        with Cons q2 t c False Suc.IH [OF v] show ?thesis by (simp add: Let_def)
      next
        case nc: False
        have h: "world_rel P Q (h1 (action e1) ?v1) (h2 (action e2) ?v2)"
          using assms p v unfolding handlers_correspond_def by blast
        then have n: "now (sched (h1 (action e1) ?v1)) = now (sched (h2 (action e2) ?v2))"
          by (simp add: world_rel_def sched_rel_def now_def)
        from Cons q2 t c False nc Suc.IH [OF h] er n show ?thesis
          by (simp add: Let_def executed_rel_def)
      qed
    qed
  qed
qed

lemma api_only_regionalbank: "api_only regionalbank_handler"
  unfolding api_only_def
proof (intro allI)
  fix a and w :: "(regionalbank_event, regionalbank_state) world"
  show "api_reach w (regionalbank_handler a w)"
    by (cases a) (auto intro: api_user api_refl)
qed

lemma inert_regionalbank: "sched (regionalbank_handler a w) = sched w"
  by (cases a) simp_all

lemma sched_inv_initial: "sched_inv initial_scheduler"
  by (simp add: sched_inv_def initial_scheduler_def)

lemma sched_inv_schedule_all: "sched_inv s \<Longrightarrow> sched_inv (schedule_all cs s)"
proof (induction cs arbitrary: s)
  case Nil
  then show ?case by simp
next
  case (Cons c cs)
  obtain d a where c: "c = (d, a)" by (cases c)
  show ?case
  proof (cases "schedule d a s")
    case (Inl err)
    with Cons c show ?thesis by simp
  next
    case (Inr p)
    obtain h s' where p: "p = (h, s')" by (cases p)
    with Inr Cons.prems have "sched_inv s'" by (auto intro: sched_inv_schedule)
    with Cons.IH Inr p c show ?thesis by simp
  qed
qed

lemma api_reach_next_sequence:
  "api_reach w w' \<Longrightarrow> next_sequence (sched w) \<le> next_sequence (sched w')"
  by (induction rule: api_reach.induct) (auto simp: schedule_def cancel_def split: if_splits)

lemma run_until_next_sequence:
  assumes "api_only h"
  shows "next_sequence (sched w) \<le> next_sequence (sched (snd (run_until stop_time fuel h w)))"
proof (induction fuel arbitrary: w)
  case 0
  show ?case by simp
next
  case (Suc fuel)
  show ?case
  proof (cases "queue (sched w)")
    case Nil
    then show ?thesis by simp
  next
    case (Cons e q)
    let ?w1 = "w\<lparr> sched := (sched w)\<lparr> clock := scheduled_time e, queue := q \<rparr> \<rparr>"
    have "api_reach ?w1 (h (action e) ?w1)" using assms by (simp add: api_only_def)
    then have "next_sequence (sched w) \<le> next_sequence (sched (h (action e) ?w1))"
      using api_reach_next_sequence by fastforce
    with Suc.IH [of "h (action e) ?w1"] Suc.IH [of ?w1] Cons show ?thesis
      by (auto simp: Let_def)
  qed
qed

lemma sorted_wrt_nth_key:
  assumes "sorted_wrt (\<lambda>x y. event_before (fst x) (fst y)) xs" "i < j" "j < length xs"
    "scheduled_time (fst (xs ! i)) = scheduled_time (fst (xs ! j))"
  shows "insertion_sequence (fst (xs ! i)) < insertion_sequence (fst (xs ! j))"
proof -
  from assms(1-3) have "event_before (fst (xs ! i)) (fst (xs ! j))"
    by (simp add: sorted_wrt_iff_nth_less)
  with assms(4) show ?thesis by (simp add: event_before_def)
qed

text \<open>
  C2. Events scheduled for the same virtual time are executed in their insertion order.
  For every run of the scheduler from a state that meets the queue invariant, with actions
  that reach the scheduler only through its interface, the executed events are in strictly
  increasing order of (time, sequence number): of two executed events of equal time the one
  with the smaller sequence number runs first. Sequence numbers are handed out in the order
  of the \<open>schedule\<close> calls, and the next number to hand out never decreases, neither by
  the calls an action makes nor along a run. And scheduling \<open>N\<close> events for one time \<open>t\<close>, in order, on the
  initial scheduler and running to a stop time not before \<open>t\<close> with fuel for \<open>N\<close> events
  executes exactly these \<open>N\<close> events, in the order they were scheduled, and ends the run.
\<close>

theorem C2_same_time_events_run_in_insertion_order:
  "(api_only h \<and> sched_inv (sched w) \<longrightarrow>
      sorted_wrt (\<lambda>x y. event_before (fst x) (fst y)) (fst (run_until stop_time fuel h w))
      \<and> (\<forall>i j. i < j \<and> j < length (fst (run_until stop_time fuel h w))
              \<and> scheduled_time (fst (fst (run_until stop_time fuel h w) ! i))
                  = scheduled_time (fst (fst (run_until stop_time fuel h w) ! j))
            \<longrightarrow> insertion_sequence (fst (fst (run_until stop_time fuel h w) ! i))
                  < insertion_sequence (fst (fst (run_until stop_time fuel h w) ! j))))
   \<and> (schedule delay a s = Inr (k, s') \<longrightarrow> k = next_sequence s \<and> next_sequence s' = Suc k)
   \<and> (0 \<le> t \<and> t \<le> stop_time \<and> length (as :: 'c list) \<le> fuel \<and> (\<forall>b v. sched (g b v) = sched v) \<longrightarrow>
        map (action \<circ> fst)
          (fst (run_until stop_time fuel g
                  \<lparr> sched = schedule_all (map (Pair t) as) initial_scheduler, user = u \<rparr>)) = as
        \<and> map (insertion_sequence \<circ> fst)
            (fst (run_until stop_time fuel g
                    \<lparr> sched = schedule_all (map (Pair t) as) initial_scheduler, user = u \<rparr>))
            = [0 ..< length as]
        \<and> finished stop_time
            (snd (run_until stop_time fuel g
                    \<lparr> sched = schedule_all (map (Pair t) as) initial_scheduler, user = u \<rparr>)))
   \<and> (api_reach w w' \<longrightarrow> next_sequence (sched w) \<le> next_sequence (sched w'))
   \<and> (api_only h \<longrightarrow>
        next_sequence (sched w) \<le> next_sequence (sched (snd (run_until stop_time fuel h w))))"
proof (intro conjI impI)
  assume "api_reach w w'"
  then show "next_sequence (sched w) \<le> next_sequence (sched w')"
    by (rule api_reach_next_sequence)
next
  assume "api_only h"
  then show "next_sequence (sched w) \<le> next_sequence (sched (snd (run_until stop_time fuel h w)))"
    by (rule run_until_next_sequence)
next
  assume "api_only h \<and> sched_inv (sched w)"
  then show s: "sorted_wrt (\<lambda>x y. event_before (fst x) (fst y)) (fst (run_until stop_time fuel h w))"
    by (simp add: run_until_sorted)
  show "\<forall>i j. i < j \<and> j < length (fst (run_until stop_time fuel h w))
              \<and> scheduled_time (fst (fst (run_until stop_time fuel h w) ! i))
                  = scheduled_time (fst (fst (run_until stop_time fuel h w) ! j))
            \<longrightarrow> insertion_sequence (fst (fst (run_until stop_time fuel h w) ! i))
                  < insertion_sequence (fst (fst (run_until stop_time fuel h w) ! j))"
    using sorted_wrt_nth_key [OF s] by blast
next
  assume "schedule delay a s = Inr (k, s')"
  then show "k = next_sequence s" "next_sequence s' = Suc k"
    by (auto simp: schedule_def split: if_splits)
next
  assume h: "0 \<le> t \<and> t \<le> stop_time \<and> length as \<le> fuel \<and> (\<forall>b v. sched (g b v) = sched v)"
  let ?q = "map (\<lambda>(i, a). \<lparr> scheduled_time = t, insertion_sequence = i, action = a,
                            cancelled = False \<rparr>) (enumerate 0 as)"
  let ?w = "\<lparr> sched = schedule_all (map (Pair t) as) initial_scheduler, user = u \<rparr>"
  have "schedule_all (map (Pair t) as) (initial_scheduler :: 'c scheduler)
          = initial_scheduler\<lparr> next_sequence := length as, queue := ?q \<rparr>"
    using schedule_all_same_delay [of t "initial_scheduler :: 'c scheduler" as] h
    by (simp add: initial_scheduler_def)
  then have q: "queue (sched ?w) = ?q" by simp
  have a: "\<forall>e\<in>set ?q. \<not> cancelled e \<and> scheduled_time e \<le> stop_time" using h by auto
  have l: "length ?q \<le> fuel" using h by simp
  from h have inert: "\<forall>b v. sched (g b v) = sched v" by simp
  from run_until_inert_queue [OF inert q a l]
  have r: "map fst (fst (run_until stop_time fuel g ?w)) = ?q"
    and e: "queue (sched (snd (run_until stop_time fuel g ?w))) = []" by simp_all
  have "map (action \<circ> fst) (fst (run_until stop_time fuel g ?w)) = map action ?q"
    using r by (metis map_map)
  also have "\<dots> = as" by (simp add: comp_def case_prod_unfold enumerate_eq_zip)
  finally show "map (action \<circ> fst) (fst (run_until stop_time fuel g ?w)) = as" .
  have "map (insertion_sequence \<circ> fst) (fst (run_until stop_time fuel g ?w))
          = map insertion_sequence ?q"
    using r by (metis map_map)
  also have "\<dots> = [0 ..< length as]"
    by (simp add: comp_def case_prod_unfold enumerate_eq_zip)
  finally show "map (insertion_sequence \<circ> fst) (fst (run_until stop_time fuel g ?w))
                  = [0 ..< length as]" .
  show "finished stop_time (snd (run_until stop_time fuel g ?w))"
    using e by (simp add: finished_def)
qed

lemma regionalbank_run_order:
  "map (action \<circ> fst)
     (fst (run_until 20000000000 5 regionalbank_handler
             (regionalbank_world ''manual-failover'' 5000000000
                (regionalbank_initial ''manual-failover'' 10000000)))) =
     [SimulateLinkFailureEv dcAPrimaryDev, SimulateLinkFailureEv drBPrimaryDev,
      ActivateBackupRouteEv dcA (Ipv4Address 10 1 4 0) (Ipv4Mask 255 255 255 0)
        (Ipv4Address 10 1 3 2) 3]"
  by code_simp

theorem C2_same_time_events_witness:
  "api_only regionalbank_handler
   \<and> sched_inv (sched (regionalbank_world ''manual-failover'' 5000000000
                        (regionalbank_initial ''manual-failover'' 10000000)))
   \<and> sorted_wrt (\<lambda>x y. event_before (fst x) (fst y))
        (fst (run_until 20000000000 5 regionalbank_handler
                (regionalbank_world ''manual-failover'' 5000000000
                   (regionalbank_initial ''manual-failover'' 10000000))))
   \<and> map (action \<circ> fst)
        (fst (run_until 20000000000 5 regionalbank_handler
                (regionalbank_world ''manual-failover'' 5000000000
                   (regionalbank_initial ''manual-failover'' 10000000)))) =
        [SimulateLinkFailureEv dcAPrimaryDev, SimulateLinkFailureEv drBPrimaryDev,
         ActivateBackupRouteEv dcA (Ipv4Address 10 1 4 0) (Ipv4Mask 255 255 255 0)
           (Ipv4Address 10 1 3 2) 3]
   \<and> map (action \<circ> fst)
        (fst (run_until 20000000000 5 regionalbank_handler
                \<lparr> sched = schedule_all
                     (map (Pair 5000000000)
                        [SimulateLinkFailureEv dcAPrimaryDev, SimulateLinkFailureEv drBPrimaryDev])
                     initial_scheduler,
                  user = regionalbank_initial ''static'' 10000000 \<rparr>)) =
        [SimulateLinkFailureEv dcAPrimaryDev, SimulateLinkFailureEv drBPrimaryDev]"
proof -
  let ?w = "regionalbank_world ''manual-failover'' 5000000000
              (regionalbank_initial ''manual-failover'' 10000000)"
  have a: "api_only regionalbank_handler" by (rule api_only_regionalbank)
  have i: "sched_inv (sched ?w)"
    by (simp add: regionalbank_world_def sched_inv_schedule_all sched_inv_initial)
  have g: "(0::int) \<le> 5000000000 \<and> (5000000000::int) \<le> 20000000000
           \<and> length [SimulateLinkFailureEv dcAPrimaryDev, SimulateLinkFailureEv drBPrimaryDev] \<le> 5
           \<and> (\<forall>b v. sched (regionalbank_handler b v) = sched v)"
    by (simp add: inert_regionalbank)
  note inst = C2_same_time_events_run_in_insertion_order
    [of regionalbank_handler ?w 20000000000 5 0 "SimulateLinkFailureEv dcAPrimaryDev"
        initial_scheduler 0 "initial_scheduler\<lparr> next_sequence := 1 \<rparr>" 5000000000
        "[SimulateLinkFailureEv dcAPrimaryDev, SimulateLinkFailureEv drBPrimaryDev]"
        regionalbank_handler "regionalbank_initial ''static'' 10000000"]
  from inst a i have s: "sorted_wrt (\<lambda>x y. event_before (fst x) (fst y))
        (fst (run_until 20000000000 5 regionalbank_handler ?w))" by blast
  from inst g have m: "map (action \<circ> fst)
        (fst (run_until 20000000000 5 regionalbank_handler
                \<lparr> sched = schedule_all
                     (map (Pair 5000000000)
                        [SimulateLinkFailureEv dcAPrimaryDev, SimulateLinkFailureEv drBPrimaryDev])
                     initial_scheduler,
                  user = regionalbank_initial ''static'' 10000000 \<rparr>)) =
        [SimulateLinkFailureEv dcAPrimaryDev, SimulateLinkFailureEv drBPrimaryDev]" by blast
  from a i s m regionalbank_run_order show ?thesis by blast
qed

lemma sorted_log_times:
  assumes "sorted_wrt (\<lambda>x y. event_before (fst x) (fst y)) xs"
    "\<forall>x\<in>set xs. snd x = scheduled_time (fst x)"
  shows "sorted (map snd xs)"
proof -
  have "sorted_wrt (\<lambda>x y. snd x \<le> snd y) xs"
    using assms(1)
  proof (rule sorted_wrt_mono_rel [rotated])
    fix x y assume "x \<in> set xs" "y \<in> set xs" "event_before (fst x) (fst y)"
    with assms(2) show "snd x \<le> snd y" by (auto dest: event_before_time)
  qed
  then show ?thesis by (simp add: sorted_map)
qed

text \<open>
  C3. \<open>now()\<close> never decreases during a run: it is at least its initial value at the end of
  every run, the value observed right after each executed event is that event's scheduled
  time and lies between the initial and the final value, and these observed values are
  non-decreasing along the run. Only the scheduler's run advances the clock: \<open>schedule\<close>,
  \<open>cancel\<close>, and so every action that reaches the scheduler through them, leave it as it is.
\<close>

theorem C3_clock_monotone:
  "(api_only h \<and> sched_inv (sched w) \<longrightarrow>
      now (sched w) \<le> now (sched (snd (run_until stop_time fuel h w)))
      \<and> (\<forall>x\<in>set (fst (run_until stop_time fuel h w)).
            snd x = scheduled_time (fst x)
            \<and> now (sched w) \<le> snd x
            \<and> snd x \<le> now (sched (snd (run_until stop_time fuel h w))))
      \<and> sorted (map snd (fst (run_until stop_time fuel h w))))
   \<and> (schedule delay a s = Inr (k, s') \<longrightarrow> now s' = now s)
   \<and> now (cancel k s) = now s
   \<and> (api_reach w w' \<longrightarrow> now (sched w') = now (sched w))"
proof (intro conjI impI)
  assume "api_only h \<and> sched_inv (sched w)"
  then have a: "api_only h" and i: "sched_inv (sched w)" by simp_all
  from run_until_clock [OF a i, of stop_time fuel]
  show m: "now (sched w) \<le> now (sched (snd (run_until stop_time fuel h w)))"
    and l: "\<forall>x\<in>set (fst (run_until stop_time fuel h w)).
            snd x = scheduled_time (fst x)
            \<and> now (sched w) \<le> snd x
            \<and> snd x \<le> now (sched (snd (run_until stop_time fuel h w)))"
    unfolding now_def by blast+
  from l have "\<forall>x\<in>set (fst (run_until stop_time fuel h w)). snd x = scheduled_time (fst x)"
    by blast
  with run_until_sorted [OF a i, of stop_time fuel]
  show "sorted (map snd (fst (run_until stop_time fuel h w)))"
    by (rule sorted_log_times)
next
  assume "schedule delay a s = Inr (k, s')"
  then show "now s' = now s" by (simp add: now_def clock_schedule)
next
  show "now (cancel k s) = now s" by (simp add: now_def clock_cancel)
next
  assume "api_reach w w'"
  then show "now (sched w') = now (sched w)" by (simp add: now_def api_reach_clock)
qed

lemma regionalbank_run_times:
  "map (\<lambda>x. (scheduled_time (fst x), snd x))
     (fst (run_until 20000000000 5 regionalbank_handler
             (regionalbank_world ''manual-failover'' 5000000000
                (regionalbank_initial ''manual-failover'' 10000000)))) =
     [(5000000000, 5000000000), (5000000000, 5000000000), (7000000000, 7000000000)]"
  by code_simp

lemma regionalbank_final_clock:
  "now (sched (snd (run_until 20000000000 5 regionalbank_handler
             (regionalbank_world ''manual-failover'' 5000000000
                (regionalbank_initial ''manual-failover'' 10000000))))) = 7000000000"
  by code_simp

theorem C3_clock_monotone_witness:
  "api_only regionalbank_handler
   \<and> sched_inv (sched (regionalbank_world ''manual-failover'' 5000000000
                        (regionalbank_initial ''manual-failover'' 10000000)))
   \<and> now (sched (regionalbank_world ''manual-failover'' 5000000000
                    (regionalbank_initial ''manual-failover'' 10000000))) = 0
   \<and> now (sched (snd (run_until 20000000000 5 regionalbank_handler
             (regionalbank_world ''manual-failover'' 5000000000
                (regionalbank_initial ''manual-failover'' 10000000))))) = 7000000000
   \<and> map snd (fst (run_until 20000000000 5 regionalbank_handler
             (regionalbank_world ''manual-failover'' 5000000000
                (regionalbank_initial ''manual-failover'' 10000000))))
       = [5000000000, 5000000000, 7000000000]
   \<and> sorted (map snd (fst (run_until 20000000000 5 regionalbank_handler
             (regionalbank_world ''manual-failover'' 5000000000
                (regionalbank_initial ''manual-failover'' 10000000)))))
   \<and> schedule 5000000000 RecomputeRoutingTablesEv initial_scheduler
       = Inr (0, \<lparr> clock = 0, next_sequence = 1,
                   queue = [\<lparr> scheduled_time = 5000000000, insertion_sequence = 0,
                               action = RecomputeRoutingTablesEv, cancelled = False \<rparr>] \<rparr>)
   \<and> now \<lparr> clock = 0, next_sequence = 1,
            queue = [\<lparr> scheduled_time = 5000000000, insertion_sequence = 0,
                       action = RecomputeRoutingTablesEv, cancelled = False \<rparr>] \<rparr> = 0"
proof -
  let ?w = "regionalbank_world ''manual-failover'' 5000000000
              (regionalbank_initial ''manual-failover'' 10000000)"
  let ?s' = "\<lparr> clock = 0, next_sequence = 1,
               queue = [\<lparr> scheduled_time = 5000000000, insertion_sequence = 0,
                          action = RecomputeRoutingTablesEv, cancelled = False \<rparr>] \<rparr>"
  have a: "api_only regionalbank_handler" by (rule api_only_regionalbank)
  have i: "sched_inv (sched ?w)"
    by (simp add: regionalbank_world_def sched_inv_schedule_all sched_inv_initial)
  have c: "schedule 5000000000 RecomputeRoutingTablesEv initial_scheduler = Inr (0, ?s')"
    by (simp add: schedule_def initial_scheduler_def)
  have n0: "now (sched ?w) = 0" by code_simp
  note inst = C3_clock_monotone
    [of regionalbank_handler ?w 20000000000 5 5000000000 RecomputeRoutingTablesEv
        initial_scheduler 0 ?s' ?w]
  from inst a i have s: "sorted (map snd (fst (run_until 20000000000 5 regionalbank_handler ?w)))"
    by blast
  from inst c have n: "now ?s' = now (initial_scheduler :: regionalbank_event scheduler)"
    by blast
  have t: "map snd (fst (run_until 20000000000 5 regionalbank_handler ?w))
             = [5000000000, 5000000000, 7000000000]"
    using regionalbank_run_times [THEN arg_cong, of "map snd"] by (simp add: comp_def)
  from a i n0 regionalbank_final_clock t s c n show ?thesis
    by (simp add: now_def initial_scheduler_def)
qed

lemma handlers_correspond_inert:
  assumes "\<forall>a w. sched (h1 a w) = sched w" "\<forall>b w. sched (h2 b w) = sched w"
  shows "handlers_correspond P (\<lambda>u v. True) h1 h2"
  using assms by (simp add: handlers_correspond_def world_rel_def)

lemma executed_rel_keys:
  "list_all2 (executed_rel P) xs ys \<Longrightarrow>
     map (insertion_sequence \<circ> fst) xs = map (insertion_sequence \<circ> fst) ys
     \<and> map (scheduled_time \<circ> fst) xs = map (scheduled_time \<circ> fst) ys
     \<and> map snd xs = map snd ys"
  by (induction rule: list_all2_induct) (auto simp: executed_rel_def event_rel_def)

text \<open>
  C7. Determinism as a property of two runs. Take two runs whose worlds correspond at the
  start, whose external \<open>schedule\<close> calls correspond one by one with identical delays, and
  whose actions make corresponding scheduler calls (in particular: the same worlds, the
  same calls and the same handler). Then both runs execute corresponding events in the
  same order: the executed sequence numbers, the executed times and the observed values of
  \<open>now()\<close> are identical lists.
\<close>

theorem C7_two_runs_same_order:
  "handlers_correspond P Q h1 h2 \<and> list_all2 (call_rel P) calls1 calls2 \<and> world_rel P Q w1 w2 \<longrightarrow>
     list_all2 (executed_rel P)
       (fst (run_until stop_time fuel h1 (w1\<lparr> sched := schedule_all calls1 (sched w1) \<rparr>)))
       (fst (run_until stop_time fuel h2 (w2\<lparr> sched := schedule_all calls2 (sched w2) \<rparr>)))
     \<and> map (insertion_sequence \<circ> fst)
         (fst (run_until stop_time fuel h1 (w1\<lparr> sched := schedule_all calls1 (sched w1) \<rparr>)))
       = map (insertion_sequence \<circ> fst)
           (fst (run_until stop_time fuel h2 (w2\<lparr> sched := schedule_all calls2 (sched w2) \<rparr>)))
     \<and> map (scheduled_time \<circ> fst)
         (fst (run_until stop_time fuel h1 (w1\<lparr> sched := schedule_all calls1 (sched w1) \<rparr>)))
       = map (scheduled_time \<circ> fst)
           (fst (run_until stop_time fuel h2 (w2\<lparr> sched := schedule_all calls2 (sched w2) \<rparr>)))
     \<and> map snd
         (fst (run_until stop_time fuel h1 (w1\<lparr> sched := schedule_all calls1 (sched w1) \<rparr>)))
       = map snd
           (fst (run_until stop_time fuel h2 (w2\<lparr> sched := schedule_all calls2 (sched w2) \<rparr>)))"
proof
  assume h: "handlers_correspond P Q h1 h2 \<and> list_all2 (call_rel P) calls1 calls2
             \<and> world_rel P Q w1 w2"
  then have hc: "handlers_correspond P Q h1 h2" and cr: "list_all2 (call_rel P) calls1 calls2"
    and wr: "world_rel P Q w1 w2" by simp_all
  let ?v1 = "w1\<lparr> sched := schedule_all calls1 (sched w1) \<rparr>"
  let ?v2 = "w2\<lparr> sched := schedule_all calls2 (sched w2) \<rparr>"
  from wr have "sched_rel P (sched w1) (sched w2)" by (simp add: world_rel_def)
  from schedule_all_rel [OF cr this] wr have "world_rel P Q ?v1 ?v2"
    by (simp add: world_rel_def)
  from run_until_rel [OF hc this, of stop_time fuel]
  have l: "list_all2 (executed_rel P) (fst (run_until stop_time fuel h1 ?v1))
             (fst (run_until stop_time fuel h2 ?v2))" by simp
  from l executed_rel_keys [OF l]
  show "list_all2 (executed_rel P) (fst (run_until stop_time fuel h1 ?v1))
             (fst (run_until stop_time fuel h2 ?v2))
     \<and> map (insertion_sequence \<circ> fst) (fst (run_until stop_time fuel h1 ?v1))
       = map (insertion_sequence \<circ> fst) (fst (run_until stop_time fuel h2 ?v2))
     \<and> map (scheduled_time \<circ> fst) (fst (run_until stop_time fuel h1 ?v1))
       = map (scheduled_time \<circ> fst) (fst (run_until stop_time fuel h2 ?v2))
     \<and> map snd (fst (run_until stop_time fuel h1 ?v1))
       = map snd (fst (run_until stop_time fuel h2 ?v2))" by blast
qed

theorem C7_two_runs_witness:
  "handlers_correspond (=) (\<lambda>u v. True) regionalbank_handler regionalbank_handler
   \<and> list_all2 (call_rel (=)) (regionalbank_calls ''manual-failover'' 5000000000)
        (regionalbank_calls ''manual-failover'' 5000000000)
   \<and> world_rel (=) (\<lambda>u v. True)
        \<lparr> sched = initial_scheduler, user = regionalbank_initial ''manual-failover'' 10000000 \<rparr>
        \<lparr> sched = initial_scheduler, user = regionalbank_initial ''static'' 2000000 \<rparr>
   \<and> map (insertion_sequence \<circ> fst)
        (fst (run_until 20000000000 5 regionalbank_handler
           (\<lparr> sched = initial_scheduler,
              user = regionalbank_initial ''manual-failover'' 10000000 \<rparr>
            \<lparr> sched := schedule_all (regionalbank_calls ''manual-failover'' 5000000000)
                         (sched \<lparr> sched = initial_scheduler,
                                  user = regionalbank_initial ''manual-failover'' 10000000 \<rparr>) \<rparr>)))
       = map (insertion_sequence \<circ> fst)
           (fst (run_until 20000000000 5 regionalbank_handler
              (\<lparr> sched = initial_scheduler, user = regionalbank_initial ''static'' 2000000 \<rparr>
               \<lparr> sched := schedule_all (regionalbank_calls ''manual-failover'' 5000000000)
                            (sched \<lparr> sched = initial_scheduler,
                                     user = regionalbank_initial ''static'' 2000000 \<rparr>) \<rparr>)))
   \<and> map (insertion_sequence \<circ> fst)
        (fst (run_until 20000000000 5 regionalbank_handler
           (\<lparr> sched = initial_scheduler, user = regionalbank_initial ''static'' 2000000 \<rparr>
            \<lparr> sched := schedule_all (regionalbank_calls ''manual-failover'' 5000000000)
                         (sched \<lparr> sched = initial_scheduler,
                                  user = regionalbank_initial ''static'' 2000000 \<rparr>) \<rparr>)))
       = [0, 1, 2]"
proof -
  let ?w1 = "\<lparr> sched = initial_scheduler,
               user = regionalbank_initial ''manual-failover'' 10000000 \<rparr>"
  let ?w2 = "\<lparr> sched = initial_scheduler, user = regionalbank_initial ''static'' 2000000 \<rparr>"
  let ?cs = "regionalbank_calls ''manual-failover'' 5000000000"
  have h: "handlers_correspond (=) (\<lambda>u v. True) regionalbank_handler regionalbank_handler"
    by (rule handlers_correspond_inert) (simp_all add: inert_regionalbank)
  have c: "list_all2 (call_rel (=)) ?cs ?cs"
    by (simp add: list_all2_same call_rel_def)
  have w: "world_rel (=) (\<lambda>u v. True) ?w1 ?w2"
    by (simp add: world_rel_def sched_rel_def initial_scheduler_def)
  have e: "map (insertion_sequence \<circ> fst)
        (fst (run_until 20000000000 5 regionalbank_handler
                (?w2\<lparr> sched := schedule_all ?cs (sched ?w2) \<rparr>))) = [0, 1, 2]"
    by code_simp
  from C7_two_runs_same_order
         [of "(=)" "\<lambda>u v. True" regionalbank_handler regionalbank_handler ?cs ?cs ?w1 ?w2
             20000000000 5] h c w
  have "map (insertion_sequence \<circ> fst)
          (fst (run_until 20000000000 5 regionalbank_handler
                  (?w1\<lparr> sched := schedule_all ?cs (sched ?w1) \<rparr>)))
        = map (insertion_sequence \<circ> fst)
            (fst (run_until 20000000000 5 regionalbank_handler
                    (?w2\<lparr> sched := schedule_all ?cs (sched ?w2) \<rparr>)))" by blast
  with h c w e show ?thesis by blast
qed

section \<open>Properties of exercise03: route removal and link failure\<close>

lemma remove_old_route_from_spec:
  "i \<le> length rt \<Longrightarrow>
     remove_old_route_from i destNet msk rt =
       take i rt @ (case remove_route destNet msk (drop i rt) of
                      Inl err \<Rightarrow> drop i rt
                    | Inr r \<Rightarrow> r)"
proof (induction i destNet msk rt rule: remove_old_route_from.induct)
  case (1 i destNet msk rt)
  show ?case
  proof (cases "i < length rt")
    case False
    with "1.prems" have "i = length rt" by simp
    then show ?thesis
      by (subst remove_old_route_from.simps) (simp add: GetNRoutes_def)
  next
    case True
    then have d: "drop i rt = rt ! i # drop (Suc i) rt" by (simp add: Cons_nth_drop_Suc)
    show ?thesis
    proof (cases "destNetwork (rt ! i) = destNet \<and> destNetworkMask (rt ! i) = msk")
      case m: True
      with True d show ?thesis
        by (subst remove_old_route_from.simps)
           (simp add: GetNRoutes_def GetRoute_def RemoveRoute_def Let_def)
    next
      case m: False
      have "remove_old_route_from (Suc i) destNet msk rt =
              take (Suc i) rt @ (case remove_route destNet msk (drop (Suc i) rt) of
                                   Inl err \<Rightarrow> drop (Suc i) rt | Inr r \<Rightarrow> r)"
        using "1.IH" [of "GetRoute rt i"] True m by (simp add: GetNRoutes_def GetRoute_def)
      with True m d show ?thesis
        by (subst remove_old_route_from.simps)
           (auto simp: GetNRoutes_def GetRoute_def Let_def take_Suc_conv_app_nth
                 split: sum.splits)
    qed
  qed
qed

lemma remove_route_Inr:
  "remove_route destNet msk rt = Inr rt' \<Longrightarrow>
     \<exists>pre e post. rt = pre @ e # post \<and> destNetwork e = destNet \<and> destNetworkMask e = msk
        \<and> (\<forall>x\<in>set pre. \<not> (destNetwork x = destNet \<and> destNetworkMask x = msk))
        \<and> rt' = pre @ post"
proof (induction rt arbitrary: rt')
  case Nil
  then show ?case by simp
next
  case (Cons x rt)
  show ?case
  proof (cases "destNetwork x = destNet \<and> destNetworkMask x = msk")
    case True
    with Cons.prems have "rt' = rt" by simp
    with True show ?thesis by (intro exI [of _ "[]"] exI [of _ x] exI [of _ rt]) simp
  next
    case False
    with Cons.prems obtain r where r: "remove_route destNet msk rt = Inr r" and rt': "rt' = x # r"
      by (auto split: sum.splits)
    from Cons.IH [OF r] obtain pre e post where
      "rt = pre @ e # post" "destNetwork e = destNet" "destNetworkMask e = msk"
      "\<forall>x\<in>set pre. \<not> (destNetwork x = destNet \<and> destNetworkMask x = msk)" "r = pre @ post"
      by blast
    with False rt' show ?thesis
      by (intro exI [of _ "x # pre"] exI [of _ e] exI [of _ post]) simp
  qed
qed

lemma remove_route_Inl:
  "remove_route destNet msk rt = Inl err \<Longrightarrow>
     err = RouteNotFound \<and> (\<forall>x\<in>set rt. \<not> (destNetwork x = destNet \<and> destNetworkMask x = msk))"
  by (induction rt) (auto split: if_splits sum.splits)


lemma unique_routes_AddNetworkRouteTo:
  "unique_routes rt \<Longrightarrow> unique_routes (AddNetworkRouteTo network networkMask nh ifIndex m rt)"
  by (auto simp: unique_routes_def AddNetworkRouteTo_def list_ex_iff same_route_def)

lemma unique_routes_remove_old_route:
  assumes "unique_routes rt"
  shows "unique_routes (remove_old_route_from 0 destNet msk rt)"
proof (cases "remove_route destNet msk rt")
  case (Inl err)
  with remove_old_route_from_spec [of 0 rt destNet msk] assms show ?thesis by simp
next
  case (Inr rt')
  from remove_route_Inr [OF Inr] obtain pre e post where
    "rt = pre @ e # post" "rt' = pre @ post" by blast
  with assms have "unique_routes rt'" by (auto simp: unique_routes_def)
  with remove_old_route_from_spec [of 0 rt destNet msk] Inr show ?thesis by simp
qed

text \<open>
  C8 (amended). The removal loop of \<open>ActivateBackupRoute\<close> removes exactly the first entry
  matching destination and mask in insertion order, as the spec's \<open>remove_route\<close> does when
  it succeeds. When no entry matches, where \<open>remove_route\<close> fails with \<open>RouteNotFound\<close>, the
  loop leaves the table as it is and nothing is reported: in both cases the function goes
  on, hands the table the loop left to \<open>AddNetworkRouteTo\<close> for the backup route with metric
  50 and sets \<open>backupRouteActivated\<close>. A table with unique triples keeps them unique.
\<close>

theorem C8_removal_loop_first_match:
  "(case remove_route destNet msk rt of
      Inr rt' \<Rightarrow>
        remove_old_route_from 0 destNet msk rt = rt'
        \<and> (\<exists>pre e post. rt = pre @ e # post
              \<and> destNetwork e = destNet \<and> destNetworkMask e = msk
              \<and> (\<forall>x\<in>set pre. \<not> (destNetwork x = destNet \<and> destNetworkMask x = msk))
              \<and> rt' = pre @ post)
    | Inl err \<Rightarrow>
        err = RouteNotFound
        \<and> (\<forall>x\<in>set rt. \<not> (destNetwork x = destNet \<and> destNetworkMask x = msk))
        \<and> remove_old_route_from 0 destNet msk rt = rt)
   \<and> (staticRouting st node = Some rt \<longrightarrow>
        staticRouting (ActivateBackupRoute t node destNet msk nh ifIndex st) node =
          Some (AddNetworkRouteTo destNet msk nh ifIndex 50
                  (remove_old_route_from 0 destNet msk rt))
        \<and> backupRouteActivated (ActivateBackupRoute t node destNet msk nh ifIndex st)
        \<and> convergenceEndTime (ActivateBackupRoute t node destNet msk nh ifIndex st) = t
        \<and> (unique_routes rt \<longrightarrow>
             unique_routes (AddNetworkRouteTo destNet msk nh ifIndex 50
                              (remove_old_route_from 0 destNet msk rt))))
   \<and> (staticRouting st node = None \<longrightarrow>
        ActivateBackupRoute t node destNet msk nh ifIndex st = st)"
proof (intro conjI impI)
  have l: "remove_old_route_from 0 destNet msk rt =
             (case remove_route destNet msk rt of Inl err \<Rightarrow> rt | Inr r \<Rightarrow> r)"
    using remove_old_route_from_spec [of 0 rt destNet msk]
    by (cases "remove_route destNet msk rt") simp_all
  show "case remove_route destNet msk rt of
      Inr rt' \<Rightarrow>
        remove_old_route_from 0 destNet msk rt = rt'
        \<and> (\<exists>pre e post. rt = pre @ e # post
              \<and> destNetwork e = destNet \<and> destNetworkMask e = msk
              \<and> (\<forall>x\<in>set pre. \<not> (destNetwork x = destNet \<and> destNetworkMask x = msk))
              \<and> rt' = pre @ post)
    | Inl err \<Rightarrow>
        err = RouteNotFound
        \<and> (\<forall>x\<in>set rt. \<not> (destNetwork x = destNet \<and> destNetworkMask x = msk))
        \<and> remove_old_route_from 0 destNet msk rt = rt"
  proof (cases "remove_route destNet msk rt")
    case (Inl err)
    with remove_route_Inl [OF Inl] l show ?thesis by simp
  next
    case (Inr rt')
    with remove_route_Inr [OF Inr] l show ?thesis by simp
  qed
next
  assume "staticRouting st node = Some rt"
  then show "staticRouting (ActivateBackupRoute t node destNet msk nh ifIndex st) node =
          Some (AddNetworkRouteTo destNet msk nh ifIndex 50
                  (remove_old_route_from 0 destNet msk rt))"
    and "backupRouteActivated (ActivateBackupRoute t node destNet msk nh ifIndex st)"
    and "convergenceEndTime (ActivateBackupRoute t node destNet msk nh ifIndex st) = t"
    by (simp_all add: ActivateBackupRoute_def)
next
  assume "unique_routes rt"
  then show "unique_routes (AddNetworkRouteTo destNet msk nh ifIndex 50
                              (remove_old_route_from 0 destNet msk rt))"
    by (intro unique_routes_AddNetworkRouteTo unique_routes_remove_old_route)
next
  assume "staticRouting st node = None"
  then show "ActivateBackupRoute t node destNet msk nh ifIndex st = st"
    by (simp add: ActivateBackupRoute_def)
qed

lemma routingDCA_static_entries:
  "routingDCA_static =
     [\<lparr> destNetwork = Ipv4Address 10 1 4 0, destNetworkMask = Ipv4Mask 255 255 255 0,
        nextHop = Ipv4Address 10 1 4 2, interface = 2, metric = 10 \<rparr>]"
  by (simp add: routingDCA_static_def AddNetworkRouteTo_def)

lemma remove_route_DCA_primary:
  "remove_route (Ipv4Address 10 1 4 0) (Ipv4Mask 255 255 255 0) routingDCA_manual_failover =
     Inr [\<lparr> destNetwork = Ipv4Address 10 1 4 0, destNetworkMask = Ipv4Mask 255 255 255 0,
             nextHop = Ipv4Address 10 1 3 2, interface = 3, metric = 50 \<rparr>,
          \<lparr> destNetwork = Ipv4Address 10 1 4 0, destNetworkMask = Ipv4Mask 255 255 255 0,
             nextHop = Ipv4Address 10 1 5 2, interface = 4, metric = 100 \<rparr>]"
  by (simp add: routingDCA_manual_failover_entries)

lemma remove_route_DCA_absent:
  "remove_route (Ipv4Address 10 1 9 0) (Ipv4Mask 255 255 255 0) routingDCA_static
     = Inl RouteNotFound"
  by (simp add: routingDCA_static_entries Ipv4Address_def)

lemma unique_routes_DCA_manual_failover: "unique_routes routingDCA_manual_failover"
  by code_simp

lemma lookup_after_failover:
  "lookup
     (AddNetworkRouteTo (Ipv4Address 10 1 4 0) (Ipv4Mask 255 255 255 0) (Ipv4Address 10 1 3 2) 3 50
        [\<lparr> destNetwork = Ipv4Address 10 1 4 0, destNetworkMask = Ipv4Mask 255 255 255 0,
           nextHop = Ipv4Address 10 1 3 2, interface = 3, metric = 50 \<rparr>,
         \<lparr> destNetwork = Ipv4Address 10 1 4 0, destNetworkMask = Ipv4Mask 255 255 255 0,
           nextHop = Ipv4Address 10 1 5 2, interface = 4, metric = 100 \<rparr>])
     (Ipv4Address 10 1 4 2)
   = Inr (Ipv4Address 10 1 3 2, 3)"
  by code_simp

theorem C8_removal_loop_witness:
  "staticRouting (regionalbank_initial ''manual-failover'' 10000000) dcA
     = Some routingDCA_manual_failover
   \<and> unique_routes routingDCA_manual_failover
   \<and> remove_old_route_from 0 (Ipv4Address 10 1 4 0) (Ipv4Mask 255 255 255 0)
        routingDCA_manual_failover =
       [\<lparr> destNetwork = Ipv4Address 10 1 4 0, destNetworkMask = Ipv4Mask 255 255 255 0,
          nextHop = Ipv4Address 10 1 3 2, interface = 3, metric = 50 \<rparr>,
        \<lparr> destNetwork = Ipv4Address 10 1 4 0, destNetworkMask = Ipv4Mask 255 255 255 0,
          nextHop = Ipv4Address 10 1 5 2, interface = 4, metric = 100 \<rparr>]
   \<and> staticRouting
        (ActivateBackupRoute 7000000000 dcA (Ipv4Address 10 1 4 0) (Ipv4Mask 255 255 255 0)
           (Ipv4Address 10 1 3 2) 3 (regionalbank_initial ''manual-failover'' 10000000)) dcA =
       Some (AddNetworkRouteTo (Ipv4Address 10 1 4 0) (Ipv4Mask 255 255 255 0)
               (Ipv4Address 10 1 3 2) 3 50
               [\<lparr> destNetwork = Ipv4Address 10 1 4 0, destNetworkMask = Ipv4Mask 255 255 255 0,
                  nextHop = Ipv4Address 10 1 3 2, interface = 3, metric = 50 \<rparr>,
                \<lparr> destNetwork = Ipv4Address 10 1 4 0, destNetworkMask = Ipv4Mask 255 255 255 0,
                  nextHop = Ipv4Address 10 1 5 2, interface = 4, metric = 100 \<rparr>])
   \<and> unique_routes
        (AddNetworkRouteTo (Ipv4Address 10 1 4 0) (Ipv4Mask 255 255 255 0)
           (Ipv4Address 10 1 3 2) 3 50
           [\<lparr> destNetwork = Ipv4Address 10 1 4 0, destNetworkMask = Ipv4Mask 255 255 255 0,
              nextHop = Ipv4Address 10 1 3 2, interface = 3, metric = 50 \<rparr>,
            \<lparr> destNetwork = Ipv4Address 10 1 4 0, destNetworkMask = Ipv4Mask 255 255 255 0,
              nextHop = Ipv4Address 10 1 5 2, interface = 4, metric = 100 \<rparr>])
   \<and> map_option (\<lambda>rt. lookup rt (Ipv4Address 10 1 4 2))
        (staticRouting
           (ActivateBackupRoute 7000000000 dcA (Ipv4Address 10 1 4 0) (Ipv4Mask 255 255 255 0)
              (Ipv4Address 10 1 3 2) 3 (regionalbank_initial ''manual-failover'' 10000000)) dcA)
       = Some (Inr (Ipv4Address 10 1 3 2, 3))
   \<and> remove_old_route_from 0 (Ipv4Address 10 1 9 0) (Ipv4Mask 255 255 255 0) routingDCA_static
       = routingDCA_static
   \<and> staticRouting (regionalbank_initial ''manual-failover'' 10000000
                       \<lparr> staticRouting := (\<lambda>node. None) \<rparr>) dcA = None
   \<and> ActivateBackupRoute 7000000000 dcA (Ipv4Address 10 1 4 0) (Ipv4Mask 255 255 255 0)
        (Ipv4Address 10 1 3 2) 3
        (regionalbank_initial ''manual-failover'' 10000000 \<lparr> staticRouting := (\<lambda>node. None) \<rparr>)
       = regionalbank_initial ''manual-failover'' 10000000 \<lparr> staticRouting := (\<lambda>node. None) \<rparr>"
proof -
  let ?st = "regionalbank_initial ''manual-failover'' 10000000"
  let ?d = "Ipv4Address 10 1 4 0" and ?m = "Ipv4Mask 255 255 255 0"
  let ?left = "[\<lparr> destNetwork = Ipv4Address 10 1 4 0, destNetworkMask = Ipv4Mask 255 255 255 0,
                  nextHop = Ipv4Address 10 1 3 2, interface = 3, metric = 50 \<rparr>,
                \<lparr> destNetwork = Ipv4Address 10 1 4 0, destNetworkMask = Ipv4Mask 255 255 255 0,
                  nextHop = Ipv4Address 10 1 5 2, interface = 4, metric = 100 \<rparr>]"
  have s: "staticRouting ?st dcA = Some routingDCA_manual_failover"
    by (simp add: regionalbank_initial_def dcA_def)
  have n: "staticRouting (?st\<lparr> staticRouting := (\<lambda>node. None) \<rparr>) dcA = None" by simp
  have q: "unique_routes routingDCA_manual_failover"
    by (rule unique_routes_DCA_manual_failover)
  note i1 = C8_removal_loop_first_match
    [where destNet = ?d and msk = ?m and rt = routingDCA_manual_failover and st = ?st
       and node = dcA and t = 7000000000 and nh = "Ipv4Address 10 1 3 2" and ifIndex = 3]
  note i2 = C8_removal_loop_first_match
    [where destNet = "Ipv4Address 10 1 9 0" and msk = ?m and rt = routingDCA_static
       and st = "?st\<lparr> staticRouting := (\<lambda>node. None) \<rparr>"
       and node = dcA and t = 7000000000 and nh = "Ipv4Address 10 1 3 2" and ifIndex = 3]
  from i1 have r: "remove_old_route_from 0 ?d ?m routingDCA_manual_failover = ?left"
    by (simp add: remove_route_DCA_primary)
  from i1 s have a: "staticRouting
        (ActivateBackupRoute 7000000000 dcA ?d ?m (Ipv4Address 10 1 3 2) 3 ?st) dcA =
       Some (AddNetworkRouteTo ?d ?m (Ipv4Address 10 1 3 2) 3 50
               (remove_old_route_from 0 ?d ?m routingDCA_manual_failover))"
    by blast
  from i1 s q have "unique_routes (AddNetworkRouteTo ?d ?m (Ipv4Address 10 1 3 2) 3 50
               (remove_old_route_from 0 ?d ?m routingDCA_manual_failover))"
    by blast
  then have u: "unique_routes (AddNetworkRouteTo ?d ?m (Ipv4Address 10 1 3 2) 3 50 ?left)"
    by (simp only: r)
  from a have a': "staticRouting
        (ActivateBackupRoute 7000000000 dcA ?d ?m (Ipv4Address 10 1 3 2) 3 ?st) dcA =
       Some (AddNetworkRouteTo ?d ?m (Ipv4Address 10 1 3 2) 3 50 ?left)"
    by (simp only: r)
  then have k: "map_option (\<lambda>rt. lookup rt (Ipv4Address 10 1 4 2))
        (staticRouting
           (ActivateBackupRoute 7000000000 dcA ?d ?m (Ipv4Address 10 1 3 2) 3 ?st) dcA)
       = Some (Inr (Ipv4Address 10 1 3 2, 3))"
    by (simp only: option.map lookup_after_failover)
  from i2 have v: "remove_old_route_from 0 (Ipv4Address 10 1 9 0) ?m routingDCA_static
                     = routingDCA_static"
    by (simp add: remove_route_DCA_absent)
  have z: "ActivateBackupRoute 7000000000 dcA ?d ?m (Ipv4Address 10 1 3 2) 3
        (?st\<lparr> staticRouting := (\<lambda>node. None) \<rparr>) = ?st\<lparr> staticRouting := (\<lambda>node. None) \<rparr>"
    using n C8_removal_loop_first_match
      [where destNet = ?d and msk = ?m and rt = routingDCA_manual_failover
         and st = "?st\<lparr> staticRouting := (\<lambda>node. None) \<rparr>"
         and node = dcA and t = 7000000000 and nh = "Ipv4Address 10 1 3 2" and ifIndex = 3]
    by blast
  from s q r a' u k v n z show ?thesis by blast
qed

text \<open>
  The claim as stated fails where no entry matches: for DC-A's table of the pure static
  scenario and the absent destination \<open>10.1.9.0/24\<close> the spec's \<open>remove_route\<close> is
  \<open>RouteNotFound\<close>, while \<open>ActivateBackupRoute\<close> completes as on success: the table has
  changed (the backup route, a triple the table did not hold, is appended) and
  \<open>backupRouteActivated\<close> is set.
\<close>

theorem C8_no_route_not_found_counterexample:
  "remove_route (Ipv4Address 10 1 9 0) (Ipv4Mask 255 255 255 0) routingDCA_static
     = Inl RouteNotFound
   \<and> staticRouting (regionalbank_initial ''static'' 10000000) dcA = Some routingDCA_static
   \<and> staticRouting
        (ActivateBackupRoute 7000000000 dcA (Ipv4Address 10 1 9 0) (Ipv4Mask 255 255 255 0)
           (Ipv4Address 10 1 3 2) 3 (regionalbank_initial ''static'' 10000000)) dcA
       = Some (routingDCA_static
               @ [\<lparr> destNetwork = Ipv4Address 10 1 9 0, destNetworkMask = Ipv4Mask 255 255 255 0,
                    nextHop = Ipv4Address 10 1 3 2, interface = 3, metric = 50 \<rparr>])
   \<and> staticRouting
        (ActivateBackupRoute 7000000000 dcA (Ipv4Address 10 1 9 0) (Ipv4Mask 255 255 255 0)
           (Ipv4Address 10 1 3 2) 3 (regionalbank_initial ''static'' 10000000)) dcA
       \<noteq> staticRouting (regionalbank_initial ''static'' 10000000) dcA
   \<and> backupRouteActivated
        (ActivateBackupRoute 7000000000 dcA (Ipv4Address 10 1 9 0) (Ipv4Mask 255 255 255 0)
           (Ipv4Address 10 1 3 2) 3 (regionalbank_initial ''static'' 10000000))"
proof -
  have s: "staticRouting (regionalbank_initial ''static'' 10000000) dcA = Some routingDCA_static"
    by (simp add: regionalbank_initial_def dcA_def)
  have l: "remove_old_route_from 0 (Ipv4Address 10 1 9 0) (Ipv4Mask 255 255 255 0) routingDCA_static
             = routingDCA_static"
    using remove_old_route_from_spec [of 0 routingDCA_static "Ipv4Address 10 1 9 0"
        "Ipv4Mask 255 255 255 0"]
    by (simp add: remove_route_DCA_absent)
  have n: "AddNetworkRouteTo (Ipv4Address 10 1 9 0) (Ipv4Mask 255 255 255 0)
             (Ipv4Address 10 1 3 2) 3 50 routingDCA_static
           = routingDCA_static
             @ [\<lparr> destNetwork = Ipv4Address 10 1 9 0, destNetworkMask = Ipv4Mask 255 255 255 0,
                  nextHop = Ipv4Address 10 1 3 2, interface = 3, metric = 50 \<rparr>]"
    by (simp add: AddNetworkRouteTo_def routingDCA_static_entries same_route_def Ipv4Address_def)
  show ?thesis
    using s l n remove_route_DCA_absent
    by (simp add: ActivateBackupRoute_def)
qed

lemma regionalbank_frame:
  "(\<forall>x\<in>set (fst (run_until stop_time fuel regionalbank_handler w)).
      \<forall>n d m nh i. action (fst x) \<noteq> ActivateBackupRouteEv n d m nh i) \<Longrightarrow>
   staticRouting (user (snd (run_until stop_time fuel regionalbank_handler w)))
     = staticRouting (user w)"
proof (induction fuel arbitrary: w)
  case 0
  show ?case by simp
next
  case (Suc fuel)
  show ?case
  proof (cases "queue (sched w)")
    case Nil
    then show ?thesis by simp
  next
    case (Cons e q)
    let ?w1 = "w\<lparr> sched := (sched w)\<lparr> clock := scheduled_time e, queue := q \<rparr> \<rparr>"
    show ?thesis
    proof (cases "stop_time < scheduled_time e \<or> cancelled e")
      case True
      with Cons Suc.IH [of ?w1] Suc.prems show ?thesis by (auto simp: Let_def)
    next
      case False
      with Cons Suc.prems have
        na: "\<forall>n d m nh i. action e \<noteq> ActivateBackupRouteEv n d m nh i"
        and rest: "\<forall>x\<in>set (fst (run_until stop_time fuel regionalbank_handler
                                  (regionalbank_handler (action e) ?w1))).
                     \<forall>n d m nh i. action (fst x) \<noteq> ActivateBackupRouteEv n d m nh i"
        by (simp_all add: Let_def)
      from na have "staticRouting (user (regionalbank_handler (action e) ?w1))
                      = staticRouting (user w)"
        by (cases "action e") (simp_all add: SimulateLinkFailure_def)
      with Suc.IH [OF rest] Cons False show ?thesis by (simp add: Let_def)
    qed
  qed
qed

lemma regionalbank_manual_failover_queue:
  assumes "0 \<le> ft"
  shows "sched (regionalbank_world ''manual-failover'' ft st) =
     \<lparr> clock = 0, next_sequence = 3,
       queue = [\<lparr> scheduled_time = ft, insertion_sequence = 0,
                  action = SimulateLinkFailureEv dcAPrimaryDev, cancelled = False \<rparr>,
                \<lparr> scheduled_time = ft, insertion_sequence = 1,
                  action = SimulateLinkFailureEv drBPrimaryDev, cancelled = False \<rparr>,
                \<lparr> scheduled_time = ft + 2000000000, insertion_sequence = 2,
                  action = ActivateBackupRouteEv dcA (Ipv4Address 10 1 4 0) (Ipv4Mask 255 255 255 0)
                             (Ipv4Address 10 1 3 2) 3, cancelled = False \<rparr>] \<rparr>"
  using assms
  by (simp add: regionalbank_world_def regionalbank_calls_def schedule_def initial_scheduler_def
      event_before_def)

lemma regionalbank_between_failure_and_failover:
  assumes "0 \<le> ft" "ft \<le> stop_time" "stop_time < ft + 2000000000" "2 \<le> fuel"
  shows "user (snd (run_until stop_time fuel regionalbank_handler
                      (regionalbank_world ''manual-failover'' ft st)))
           = SimulateLinkFailure ft drBPrimaryDev (SimulateLinkFailure ft dcAPrimaryDev st)"
    and "map (action \<circ> fst) (fst (run_until stop_time fuel regionalbank_handler
                      (regionalbank_world ''manual-failover'' ft st)))
           = [SimulateLinkFailureEv dcAPrimaryDev, SimulateLinkFailureEv drBPrimaryDev]"
proof -
  from assms(4) obtain f where f: "fuel = Suc (Suc f)"
    by (metis Suc_le_D numeral_2_eq_2 Suc_le_mono)
  obtain w where w: "w = regionalbank_world ''manual-failover'' ft st" by simp
  have u: "user w = st" by (simp add: w regionalbank_world_def)
  have q: "sched w = \<lparr> clock = 0, next_sequence = 3,
       queue = [\<lparr> scheduled_time = ft, insertion_sequence = 0,
                  action = SimulateLinkFailureEv dcAPrimaryDev, cancelled = False \<rparr>,
                \<lparr> scheduled_time = ft, insertion_sequence = 1,
                  action = SimulateLinkFailureEv drBPrimaryDev, cancelled = False \<rparr>,
                \<lparr> scheduled_time = ft + 2000000000, insertion_sequence = 2,
                  action = ActivateBackupRouteEv dcA (Ipv4Address 10 1 4 0) (Ipv4Mask 255 255 255 0)
                             (Ipv4Address 10 1 3 2) 3, cancelled = False \<rparr>] \<rparr>"
    unfolding w using assms(1) by (rule regionalbank_manual_failover_queue)
  have "user (snd (run_until stop_time fuel regionalbank_handler w))
           = SimulateLinkFailure ft drBPrimaryDev (SimulateLinkFailure ft dcAPrimaryDev st)
        \<and> map (action \<circ> fst) (fst (run_until stop_time fuel regionalbank_handler w))
           = [SimulateLinkFailureEv dcAPrimaryDev, SimulateLinkFailureEv drBPrimaryDev]"
    using assms(2,3) q u by (cases f) (simp_all add: f Let_def now_def)
  then show "user (snd (run_until stop_time fuel regionalbank_handler
                      (regionalbank_world ''manual-failover'' ft st)))
           = SimulateLinkFailure ft drBPrimaryDev (SimulateLinkFailure ft dcAPrimaryDev st)"
    and "map (action \<circ> fst) (fst (run_until stop_time fuel regionalbank_handler
                      (regionalbank_world ''manual-failover'' ft st)))
           = [SimulateLinkFailureEv dcAPrimaryDev, SimulateLinkFailureEv drBPrimaryDev]"
    by (simp_all add: w)
qed

lemma lookup_DCA_manual_failover:
  "lookup routingDCA_manual_failover (Ipv4Address 10 1 4 2) = Inr (Ipv4Address 10 1 4 2, 2)"
  by (simp add: lookup_def lookup_entry_DCA_manual_failover)

text \<open>
  C4. Marking a link failed changes no routing table: \<open>SimulateLinkFailure\<close> leaves every
  node's routing entries as they are, so every lookup gives the same result before and
  after it. In a run of exercise03 the routing tables change only when an
  \<open>ActivateBackupRoute\<close> event is executed. In the manual-failover scenario, at every stop
  time between the failure and the failover event, both link devices have been degraded
  and the failure is recorded, yet all routing tables are the initial ones and DC-A's
  lookup of \<open>10.1.4.2\<close> still returns the primary next hop \<open>10.1.4.2\<close> on interface 2.
\<close>

theorem C4_link_failure_changes_no_routing_table:
  "staticRouting (SimulateLinkFailure t device st) = staticRouting st
   \<and> map_option (\<lambda>rt. lookup rt a) (staticRouting (SimulateLinkFailure t device st) node)
       = map_option (\<lambda>rt. lookup rt a) (staticRouting st node)
   \<and> ((\<forall>x\<in>set (fst (run_until stop_time fuel regionalbank_handler w)).
          \<forall>n d m nh i. action (fst x) \<noteq> ActivateBackupRouteEv n d m nh i) \<longrightarrow>
        staticRouting (user (snd (run_until stop_time fuel regionalbank_handler w)))
          = staticRouting (user w))
   \<and> (0 \<le> ft \<and> ft \<le> stop_time \<and> stop_time < ft + 2000000000 \<and> 2 \<le> fuel \<longrightarrow>
        failureOccurred (user (snd (run_until stop_time fuel regionalbank_handler
                                      (regionalbank_world ''manual-failover'' ft st))))
        \<and> dataRate (user (snd (run_until stop_time fuel regionalbank_handler
                                   (regionalbank_world ''manual-failover'' ft st)))) dcAPrimaryDev = 1
        \<and> dataRate (user (snd (run_until stop_time fuel regionalbank_handler
                                   (regionalbank_world ''manual-failover'' ft st)))) drBPrimaryDev = 1
        \<and> backupRouteActivated (user (snd (run_until stop_time fuel regionalbank_handler
                                              (regionalbank_world ''manual-failover'' ft st))))
            = backupRouteActivated st
        \<and> staticRouting (user (snd (run_until stop_time fuel regionalbank_handler
                                        (regionalbank_world ''manual-failover'' ft st))))
            = staticRouting st
        \<and> (staticRouting st dcA = Some routingDCA_manual_failover \<longrightarrow>
             map_option (\<lambda>rt. lookup rt (Ipv4Address 10 1 4 2))
               (staticRouting (user (snd (run_until stop_time fuel regionalbank_handler
                                            (regionalbank_world ''manual-failover'' ft st)))) dcA)
               = Some (Inr (Ipv4Address 10 1 4 2, 2))))"
proof (intro conjI impI)
  show "staticRouting (SimulateLinkFailure t device st) = staticRouting st"
    by (simp add: SimulateLinkFailure_def)
  then show "map_option (\<lambda>rt. lookup rt a) (staticRouting (SimulateLinkFailure t device st) node)
       = map_option (\<lambda>rt. lookup rt a) (staticRouting st node)" by simp
next
  assume "\<forall>x\<in>set (fst (run_until stop_time fuel regionalbank_handler w)).
          \<forall>n d m nh i. action (fst x) \<noteq> ActivateBackupRouteEv n d m nh i"
  then show "staticRouting (user (snd (run_until stop_time fuel regionalbank_handler w)))
          = staticRouting (user w)" by (rule regionalbank_frame)
next
  assume h: "0 \<le> ft \<and> ft \<le> stop_time \<and> stop_time < ft + 2000000000 \<and> 2 \<le> fuel"
  then have u: "user (snd (run_until stop_time fuel regionalbank_handler
                      (regionalbank_world ''manual-failover'' ft st)))
           = SimulateLinkFailure ft drBPrimaryDev (SimulateLinkFailure ft dcAPrimaryDev st)"
    by (simp add: regionalbank_between_failure_and_failover)
  show "failureOccurred (user (snd (run_until stop_time fuel regionalbank_handler
                                      (regionalbank_world ''manual-failover'' ft st))))"
    and "dataRate (user (snd (run_until stop_time fuel regionalbank_handler
                                   (regionalbank_world ''manual-failover'' ft st)))) dcAPrimaryDev = 1"
    and "dataRate (user (snd (run_until stop_time fuel regionalbank_handler
                                   (regionalbank_world ''manual-failover'' ft st)))) drBPrimaryDev = 1"
    and "backupRouteActivated (user (snd (run_until stop_time fuel regionalbank_handler
                                              (regionalbank_world ''manual-failover'' ft st))))
            = backupRouteActivated st"
    and s: "staticRouting (user (snd (run_until stop_time fuel regionalbank_handler
                                        (regionalbank_world ''manual-failover'' ft st))))
            = staticRouting st"
    unfolding u by (simp_all add: SimulateLinkFailure_def)
  assume "staticRouting st dcA = Some routingDCA_manual_failover"
  with s show "map_option (\<lambda>rt. lookup rt (Ipv4Address 10 1 4 2))
               (staticRouting (user (snd (run_until stop_time fuel regionalbank_handler
                                            (regionalbank_world ''manual-failover'' ft st)))) dcA)
               = Some (Inr (Ipv4Address 10 1 4 2, 2))"
    by (simp add: lookup_DCA_manual_failover)
qed

lemma regionalbank_static_run:
  "map (action \<circ> fst) (fst (run_until 20000000000 5 regionalbank_handler
      (regionalbank_world ''static'' 5000000000 (regionalbank_initial ''static'' 10000000))))
   = [SimulateLinkFailureEv dcAPrimaryDev, SimulateLinkFailureEv drBPrimaryDev]"
  by code_simp

theorem C4_link_failure_witness:
  "(\<exists>x\<in>set (fst (run_until 20000000000 5 regionalbank_handler
        (regionalbank_world ''static'' 5000000000 (regionalbank_initial ''static'' 10000000)))).
       action (fst x) = SimulateLinkFailureEv dcAPrimaryDev)
   \<and> staticRouting (user (snd (run_until 20000000000 5 regionalbank_handler
        (regionalbank_world ''static'' 5000000000 (regionalbank_initial ''static'' 10000000)))))
       = staticRouting (regionalbank_initial ''static'' 10000000)
   \<and> (0::int) \<le> 5000000000 \<and> (5000000000::int) \<le> 6000000000
   \<and> (6000000000::int) < 5000000000 + 2000000000 \<and> (2::nat) \<le> 5
   \<and> staticRouting (regionalbank_initial ''manual-failover'' 10000000) dcA
       = Some routingDCA_manual_failover
   \<and> failureOccurred (user (snd (run_until 6000000000 5 regionalbank_handler
        (regionalbank_world ''manual-failover'' 5000000000
           (regionalbank_initial ''manual-failover'' 10000000)))))
   \<and> map_option (\<lambda>rt. lookup rt (Ipv4Address 10 1 4 2))
        (staticRouting (user (snd (run_until 6000000000 5 regionalbank_handler
           (regionalbank_world ''manual-failover'' 5000000000
              (regionalbank_initial ''manual-failover'' 10000000))))) dcA)
       = Some (Inr (Ipv4Address 10 1 4 2, 2))"
proof -
  let ?w = "regionalbank_world ''static'' 5000000000 (regionalbank_initial ''static'' 10000000)"
  let ?st = "regionalbank_initial ''manual-failover'' 10000000"
  note inst = C4_link_failure_changes_no_routing_table
    [where stop_time = 20000000000 and fuel = 5 and w = ?w]
  note inst2 = C4_link_failure_changes_no_routing_table
    [where stop_time = 6000000000 and fuel = 5 and ft = 5000000000 and st = ?st]
  have "SimulateLinkFailureEv dcAPrimaryDev
          \<in> set (map (action \<circ> fst) (fst (run_until 20000000000 5 regionalbank_handler ?w)))"
    by (simp only: regionalbank_static_run list.set_intros)
  then have e: "\<exists>x\<in>set (fst (run_until 20000000000 5 regionalbank_handler ?w)).
             action (fst x) = SimulateLinkFailureEv dcAPrimaryDev"
    by (force simp: image_iff)
  have "\<forall>y\<in>set (map (action \<circ> fst) (fst (run_until 20000000000 5 regionalbank_handler ?w))).
          \<forall>n d m nh i. y \<noteq> ActivateBackupRouteEv n d m nh i"
    by (simp only: regionalbank_static_run) simp
  then have "\<forall>x\<in>set (fst (run_until 20000000000 5 regionalbank_handler ?w)).
          \<forall>n d m nh i. action (fst x) \<noteq> ActivateBackupRouteEv n d m nh i"
    by simp
  with inst have r: "staticRouting (user (snd (run_until 20000000000 5 regionalbank_handler ?w)))
          = staticRouting (user ?w)" by blast
  have u: "user ?w = regionalbank_initial ''static'' 10000000"
    by (simp add: regionalbank_world_def)
  have g: "(0::int) \<le> 5000000000 \<and> (5000000000::int) \<le> 6000000000
           \<and> (6000000000::int) < 5000000000 + 2000000000 \<and> (2::nat) \<le> 5" by simp
  have s: "staticRouting ?st dcA = Some routingDCA_manual_failover"
    by (simp add: regionalbank_initial_def dcA_def)
  from inst2 g s have
    "failureOccurred (user (snd (run_until 6000000000 5 regionalbank_handler
        (regionalbank_world ''manual-failover'' 5000000000 ?st))))"
    "map_option (\<lambda>rt. lookup rt (Ipv4Address 10 1 4 2))
        (staticRouting (user (snd (run_until 6000000000 5 regionalbank_handler
           (regionalbank_world ''manual-failover'' 5000000000 ?st)))) dcA)
       = Some (Inr (Ipv4Address 10 1 4 2, 2))" by blast+
  with e r u g s show ?thesis by simp
qed

section \<open>Properties of the flow statistics\<close>

subsection \<open>Rounding\<close>

lemma round_double_0 [simp]: "round_double 0 = Finite 0"
  by (simp add: round_double_def)

lemma round_half_even_of_int [simp]: "round_half_even (of_int z) = z"
  by (simp add: round_half_even_def)

lemma round_half_even_nearest: "\<bar>of_int (round_half_even x) - x\<bar> \<le> 1 / 2"
proof -
  have "of_int \<lfloor>x\<rfloor> \<le> x" and "x < of_int \<lfloor>x\<rfloor> + 1" by linarith+
  then show ?thesis by (auto simp: round_half_even_def Let_def)
qed

lemma pow2_nonneg: "0 \<le> e \<Longrightarrow> pow2 e = 2 ^ nat e"
  by (simp add: pow2_def)

lemma pow2_nonpos: "e \<le> 0 \<Longrightarrow> pow2 e = 1 / 2 ^ nat (- e)"
  by (simp add: pow2_def)

lemma pow2_powi: "pow2 e = 2 powi e"
proof (cases "0 \<le> e")
  case True
  then show ?thesis by (simp add: pow2_def power_int_def)
next
  case False
  then show ?thesis by (simp add: pow2_def power_int_def power_one_over inverse_eq_divide)
qed

lemma pow2_pos: "0 < pow2 e"
  by (simp add: pow2_def)

lemma bitlen_pos: "0 < n \<Longrightarrow> 1 \<le> bitlen n"
  using bitlen_eq_zero_iff [of n] bitlen_nonneg [of n] by linarith

lemma bitlen_le_53: "n < 2 ^ 53 \<Longrightarrow> bitlen n \<le> 53"
  using bitlen_le_iff_power [of n 53] by simp

lemma bitlen_one: "bitlen 1 = 1"
  by code_simp

text \<open>\<open>floor_log2 x\<close> is the binary exponent of a positive \<open>x\<close>.\<close>

lemma floor_log2_bounds:
  assumes "0 < x"
  shows "pow2 (floor_log2 x) \<le> x" and "x < pow2 (floor_log2 x + 1)"
proof -
  obtain n d where q: "quotient_of x = (n, d)" by (cases "quotient_of x")
  from quotient_of_denom_pos [OF q] have d: "0 < d" .
  from quotient_of_div [OF q] have x: "x = of_int n / of_int d" .
  from assms x d have n: "0 < n" by (simp add: zero_less_divide_iff)
  define k where "k = bitlen n - bitlen d"
  have bn: "1 \<le> bitlen n" and bd: "1 \<le> bitlen d" using n d by (simp_all add: bitlen_pos)
  from bitlen_bounds [OF n] have "(of_int ((2::int) ^ nat (bitlen n - 1)) :: rat) \<le> of_int n"
    and "(of_int n :: rat) < of_int (2 ^ nat (bitlen n))"
    by (simp_all only: of_int_le_iff of_int_less_iff)
  then have n1: "pow2 (bitlen n - 1) \<le> of_int n" and n2: "of_int n < pow2 (bitlen n)"
    using bn by (simp_all add: pow2_nonneg)
  from bitlen_bounds [OF d] have "(of_int ((2::int) ^ nat (bitlen d - 1)) :: rat) \<le> of_int d"
    and "(of_int d :: rat) < of_int (2 ^ nat (bitlen d))"
    by (simp_all only: of_int_le_iff of_int_less_iff)
  then have d1: "pow2 (bitlen d - 1) \<le> of_int d" and d2: "of_int d < pow2 (bitlen d)"
    using bd by (simp_all add: pow2_nonneg)
  have dp: "(0::rat) < of_int d" using d by simp
  have lo: "pow2 (k - 1) < x"
  proof -
    have "pow2 (k - 1) * of_int d < pow2 (k - 1) * pow2 (bitlen d)"
      using d2 by (simp add: pow2_powi)
    also have "\<dots> = pow2 (bitlen n - 1)"
      by (simp add: pow2_powi k_def flip: power_int_add)
    also have "\<dots> \<le> of_int n" by (rule n1)
    finally show ?thesis using dp by (simp add: x pos_less_divide_eq)
  qed
  have hi: "x < pow2 (k + 1)"
  proof -
    have "of_int n < pow2 (bitlen n)" by (rule n2)
    also have "\<dots> = pow2 (k + 1) * pow2 (bitlen d - 1)"
      by (simp add: pow2_powi k_def flip: power_int_add)
    also have "\<dots> \<le> pow2 (k + 1) * of_int d"
      using d1 by (simp add: pow2_powi)
    finally show ?thesis using dp by (simp add: x pos_divide_less_eq)
  qed
  have f: "floor_log2 x = (if pow2 k \<le> x then k else k - 1)"
    by (simp add: floor_log2_def q k_def)
  show "pow2 (floor_log2 x) \<le> x" using lo by (simp add: f)
  show "x < pow2 (floor_log2 x + 1)" using hi by (auto simp: f)
qed

text \<open>
  A finite result of \<open>round_double\<close> is within half a unit in the last place of the exact
  value.
\<close>

lemma round_double_nearest:
  assumes "round_double x = Finite r"
  shows "\<bar>r - x\<bar> \<le> pow2 (max (floor_log2 \<bar>x\<bar> - 52) (- 1074)) / 2"
proof (cases "x = 0")
  case True
  with assms show ?thesis using pow2_pos [of "max (floor_log2 \<bar>x\<bar> - 52) (- 1074)"] by simp
next
  case False
  define p where "p = pow2 (max (floor_log2 \<bar>x\<bar> - 52) (- 1074))"
  define y where "y = \<bar>x\<bar> / p"
  have p: "0 < p" by (simp add: p_def pow2_pos)
  from assms False have r: "r = sgn x * (of_int (round_half_even y) * p)"
    by (simp add: round_double_def Let_def p_def y_def split: if_splits)
  have x: "x = sgn x * (y * p)" using p by (simp add: y_def sgn_mult_abs)
  have "r - x = sgn x * ((of_int (round_half_even y) - y) * p)"
    by (subst x, simp add: r algebra_simps)
  then have "\<bar>r - x\<bar> = \<bar>of_int (round_half_even y) - y\<bar> * p"
    using False p by (simp add: abs_mult abs_sgn_eq)
  also have "\<dots> \<le> 1 / 2 * p"
    using round_half_even_nearest [of y] p by (simp only: mult_right_mono less_imp_le)
  finally show ?thesis by (simp add: p_def)
qed

text \<open>An integer below \<open>2^53\<close> is a double: rounding leaves it as it is.\<close>

lemma floor_log2_of_int:
  assumes "0 < n"
  shows "floor_log2 (of_int n) = bitlen n - 1"
proof -
  from bitlen_bounds [OF assms] have "(2::int) ^ nat (bitlen n - 1) \<le> n" by simp
  then have "(of_int ((2::int) ^ nat (bitlen n - 1)) :: rat) \<le> of_int n"
    by (simp only: of_int_le_iff)
  then have "pow2 (bitlen n - 1) \<le> of_int n"
    using bitlen_pos [OF assms] by (simp add: pow2_nonneg)
  then show ?thesis by (simp add: floor_log2_def bitlen_one)
qed

lemma round_double_of_int:
  assumes "0 < n" "n < 2 ^ 53"
  shows "round_double (of_int n) = Finite (of_int n)"
proof -
  define k where "k = bitlen n - 1"
  define m where "m = nat (52 - k)"
  have k0: "0 \<le> k" using bitlen_pos [OF assms(1)] by (simp add: k_def)
  have k52: "k \<le> 52" using bitlen_le_53 [OF assms(2)] by (simp add: k_def)
  have fl: "floor_log2 \<bar>of_int n :: rat\<bar> = k"
    using assms(1) floor_log2_of_int [OF assms(1)] by (simp add: k_def)
  have e: "max (k - 52) (- 1074) = k - 52" using k0 by simp
  have p: "pow2 (k - 52) = 1 / 2 ^ m"
    using k52 by (simp add: pow2_nonpos m_def)
  have q: "\<bar>of_int n :: rat\<bar> / pow2 (k - 52) = of_int (n * 2 ^ m)"
    using assms(1) by (simp add: p)
  have r: "(of_int (round_half_even (\<bar>of_int n :: rat\<bar> / pow2 (k - 52))) :: rat) * pow2 (k - 52)
             = of_int n"
    unfolding q round_half_even_of_int by (simp add: p)
  have "(of_int n :: rat) < of_int (2 ^ 53)" using assms(2) by (simp only: of_int_less_iff)
  also have "\<dots> \<le> pow2 1024" by (simp add: pow2_def)
  finally have o: "\<not> pow2 1024 \<le> (of_int n :: rat)" by simp
  have nz: "(of_int n :: rat) \<noteq> 0" using assms(1) by simp
  have sg: "sgn (of_int n :: rat) = 1" using assms(1) by simp
  show ?thesis
    unfolding round_double_def Let_def fl e r
    using nz o sg by simp
qed

lemma round_double_of_nat:
  assumes "n < 2 ^ 53"
  shows "round_double (of_nat n) = Finite (of_nat n)"
proof (cases "n = 0")
  case True
  then show ?thesis by simp
next
  case False
  with assms have "0 < int n" "int n < 2 ^ 53" by simp_all
  from round_double_of_int [OF this] show ?thesis by simp
qed

text \<open>
  The values met below: 40, \<open>3/128\<close>, \<open>1/256\<close> and \<open>125/32\<close> are doubles, \<open>100/3\<close>, \<open>4/10\<close>
  and \<open>3/100\<close> are not; the double nearest to \<open>100/3\<close> is \<open>4691249611844267 / 2^47\<close>,
  printed 33.333333333333336, and the double nearest to \<open>4/10\<close> is
  \<open>3602879701896397 / 2^53\<close>.
\<close>

lemma round_double_values:
  "round_double 40 = Finite 40"
  "round_double (3 / 128) = Finite (3 / 128)"
  "round_double (1 / 256) = Finite (1 / 256)"
  "round_double (125 / 32) = Finite (125 / 32)"
  "round_double (100 / 3) = Finite (4691249611844267 / 140737488355328)"
  "round_double (2 / 5) = Finite (3602879701896397 / 9007199254740992)"
  "round_double (3 / 100) = Finite (1080863910568919 / 36028797018963968)"
  by code_simp+

lemma is_double_values:
  "is_double 40" "is_double (3 / 128)" "is_double (1 / 256)" "is_double (125 / 32)"
  "\<not> is_double (100 / 3)" "\<not> is_double (2 / 5)" "\<not> is_double (3 / 100)"
  by (simp_all add: is_double_def round_double_values)

subsection \<open>Packet counts\<close>

lemma of_uint32_pos: "0 < (w :: uint32) \<Longrightarrow> of_uint32 w \<noteq> 0"
  by (simp add: of_uint32_def unsigned_eq_0_iff word_neq_0_conv)

lemma of_uint32_sub:
  assumes "rx \<le> (tx :: uint32)"
  shows "of_uint32 (tx - rx) = of_uint32 tx - of_uint32 rx"
proof -
  from assms have le: "unat rx \<le> unat tx" by (simp add: word_le_nat_alt)
  from assms have "unat (tx - rx) = unat tx - unat rx" by (simp add: unat_sub)
  then show ?thesis
    unfolding of_uint32_def using le by (simp only: of_nat_diff)
qed

text \<open>The product of 100 and a packet count is below \<open>2^53\<close>: the multiplication is exact.\<close>

lemma round_double_100_of_uint32:
  "round_double (100 * of_uint32 w) = Finite (100 * of_uint32 w)"
proof -
  have "unat w < 2 ^ 32" using unsigned_less [of w] by simp
  then have "100 * unat w < 2 ^ 53" by simp
  from round_double_of_nat [OF this] show ?thesis
    unfolding of_uint32_def by (simp only: of_nat_mult of_nat_numeral)
qed

lemma regionalbank_loss:
  assumes "0 < txPackets f"
  shows "packetLoss (regionalbank_flow_report f)
           = Some (round_double (100 * of_uint32 (txPackets f - rxPackets f)
                                   / of_uint32 (txPackets f)))"
  using assms of_uint32_pos [OF assms]
  by (simp add: regionalbank_flow_report_def round_double_100_of_uint32)

lemma triangular_loss:
  assumes "0 < txPackets f"
  shows "packetLoss (triangular_flow_report f)
           = Some (round_double (100 * of_uint32 (txPackets f - rxPackets f)
                                   / of_uint32 (txPackets f)))"
proof -
  have "fmul (Finite (of_uint32 (txPackets f - rxPackets f))) 100
          = Finite (100 * of_uint32 (txPackets f - rxPackets f))"
    using round_double_100_of_uint32 [of "txPackets f - rxPackets f"]
    by (simp add: mult.commute)
  then show ?thesis
    using of_uint32_pos [OF assms] by (simp add: triangular_flow_report_def)
qed


subsection \<open>Loss and mean delay\<close>

text \<open>
  C5 (amended). The statistics loops report the loss as a percentage, computed in \<open>double\<close>:
  for a flow with \<open>0 < tx\<close> and \<open>rx \<le> tx\<close> the packet loss is \<open>100 * (tx - rx) / tx\<close> rounded
  to the nearest double, in exercise02 and in exercise03 (the product of 100 and the count
  is exact, the quotient is rounded once). The mean delay is \<open>delay_sum / rx\<close> rounded to the
  nearest double, in seconds, printed by exercise03 when \<open>tx > 0\<close> and \<open>rx > 0\<close>; exercise02
  prints, when \<open>rx > 0\<close>, that double times 1000, rounded again, in milliseconds. Where the
  exact quotient (and, for exercise02, its product with 1000) is a double, it is the value
  reported. In particular, for every flow with \<open>tx = 10\<close> and \<open>rx = 6\<close> the reported loss is
  exactly 40 (percent).
\<close>

theorem C5_loss_percentage_and_mean_delay:
  "(0 < txPackets f \<and> rxPackets f \<le> txPackets f \<longrightarrow>
      packetLoss (regionalbank_flow_report f)
        = Some (round_double (100 * (of_uint32 (txPackets f) - of_uint32 (rxPackets f))
                                / of_uint32 (txPackets f)))
      \<and> packetLoss (triangular_flow_report f)
        = Some (round_double (100 * (of_uint32 (txPackets f) - of_uint32 (rxPackets f))
                                / of_uint32 (txPackets f))))
   \<and> (0 < txPackets f \<and> rxPackets f \<le> txPackets f
        \<and> is_double (100 * (of_uint32 (txPackets f) - of_uint32 (rxPackets f))
                          / of_uint32 (txPackets f)) \<longrightarrow>
      packetLoss (regionalbank_flow_report f)
        = Some (Finite (100 * (of_uint32 (txPackets f) - of_uint32 (rxPackets f))
                          / of_uint32 (txPackets f)))
      \<and> packetLoss (triangular_flow_report f)
        = Some (Finite (100 * (of_uint32 (txPackets f) - of_uint32 (rxPackets f))
                          / of_uint32 (txPackets f))))
   \<and> (0 < txPackets f \<and> 0 < rxPackets f \<longrightarrow>
        meanDelay (regionalbank_flow_report f)
          = Some (round_double (delaySum f / of_uint32 (rxPackets f))))
   \<and> (0 < txPackets f \<and> 0 < rxPackets f
        \<and> is_double (delaySum f / of_uint32 (rxPackets f)) \<longrightarrow>
        meanDelay (regionalbank_flow_report f)
          = Some (Finite (delaySum f / of_uint32 (rxPackets f))))
   \<and> (0 < rxPackets f \<longrightarrow>
        meanDelay (triangular_flow_report f)
          = Some (fmul (round_double (delaySum f / of_uint32 (rxPackets f))) 1000))
   \<and> (0 < rxPackets f \<and> is_double (delaySum f / of_uint32 (rxPackets f))
        \<and> is_double (delaySum f / of_uint32 (rxPackets f) * 1000) \<longrightarrow>
        meanDelay (triangular_flow_report f)
          = Some (Finite (delaySum f / of_uint32 (rxPackets f) * 1000)))
   \<and> (txPackets f = 10 \<and> rxPackets f = 6 \<longrightarrow>
        packetLoss (regionalbank_flow_report f) = Some (Finite 40)
        \<and> packetLoss (triangular_flow_report f) = Some (Finite 40))"
proof -
  let ?l = "100 * (of_uint32 (txPackets f) - of_uint32 (rxPackets f)) / of_uint32 (txPackets f)"
  let ?d = "delaySum f / of_uint32 (rxPackets f)"
  have loss: "packetLoss (regionalbank_flow_report f) = Some (round_double ?l)
              \<and> packetLoss (triangular_flow_report f) = Some (round_double ?l)"
    if "0 < txPackets f \<and> rxPackets f \<le> txPackets f"
    using that by (simp add: regionalbank_loss triangular_loss of_uint32_sub)
  have loss_exact: "packetLoss (regionalbank_flow_report f) = Some (Finite ?l)
              \<and> packetLoss (triangular_flow_report f) = Some (Finite ?l)"
    if "0 < txPackets f \<and> rxPackets f \<le> txPackets f \<and> is_double ?l"
    using that loss by (simp add: is_double_def)
  have delay3: "meanDelay (regionalbank_flow_report f) = Some (round_double ?d)"
    if "0 < txPackets f \<and> 0 < rxPackets f"
    using that by (simp add: regionalbank_flow_report_def of_uint32_pos)
  have delay3_exact: "meanDelay (regionalbank_flow_report f) = Some (Finite ?d)"
    if "0 < txPackets f \<and> 0 < rxPackets f \<and> is_double ?d"
    using that delay3 by (simp add: is_double_def)
  have delay2: "meanDelay (triangular_flow_report f) = Some (fmul (round_double ?d) 1000)"
    if "0 < rxPackets f"
    using that by (simp add: triangular_flow_report_def of_uint32_pos)
  have delay2_exact: "meanDelay (triangular_flow_report f) = Some (Finite (?d * 1000))"
    if "0 < rxPackets f \<and> is_double ?d \<and> is_double (?d * 1000)"
    using that delay2 by (simp add: is_double_def)
  have forty: "packetLoss (regionalbank_flow_report f) = Some (Finite 40)
               \<and> packetLoss (triangular_flow_report f) = Some (Finite 40)"
    if h: "txPackets f = 10 \<and> rxPackets f = 6"
  proof -
    from h have "0 < txPackets f \<and> rxPackets f \<le> txPackets f" by simp
    from loss [OF this] show ?thesis
      using h by (simp add: of_uint32_def round_double_values)
  qed
  from loss loss_exact delay3 delay3_exact delay2 delay2_exact forty
  show ?thesis by (intro conjI impI) blast+
qed

text \<open>
  At \<open>tx = 10\<close>, \<open>rx = 6\<close>, \<open>delaySum = 3/128\<close> every quotient is a double: the loss is 40, the
  mean delay \<open>1/256\<close> seconds in exercise03 and \<open>125/32\<close> milliseconds in exercise02. At
  \<open>tx = 3\<close>, \<open>rx = 2\<close> the quotient \<open>100/3\<close> is not a double and the loss reported is the double
  nearest to it.
\<close>

theorem C5_loss_percentage_witness:
  "(0 :: uint32) < 10 \<and> (6 :: uint32) \<le> 10 \<and> (0 :: uint32) < 6
   \<and> is_double (3 / 128) \<and> is_double 40 \<and> is_double (1 / 256) \<and> is_double (125 / 32)
   \<and> packetLoss (regionalbank_flow_report
        \<lparr> txPackets = 10, rxPackets = 6, delaySum = 3 / 128, jitterSum = 1 / 1024 \<rparr>)
       = Some (Finite 40)
   \<and> packetLoss (triangular_flow_report
        \<lparr> txPackets = 10, rxPackets = 6, delaySum = 3 / 128, jitterSum = 1 / 1024 \<rparr>)
       = Some (Finite 40)
   \<and> meanDelay (regionalbank_flow_report
        \<lparr> txPackets = 10, rxPackets = 6, delaySum = 3 / 128, jitterSum = 1 / 1024 \<rparr>)
       = Some (Finite (1 / 256))
   \<and> meanDelay (triangular_flow_report
        \<lparr> txPackets = 10, rxPackets = 6, delaySum = 3 / 128, jitterSum = 1 / 1024 \<rparr>)
       = Some (Finite (125 / 32))
   \<and> (0 :: uint32) < 3 \<and> (2 :: uint32) \<le> 3 \<and> \<not> is_double (100 / 3)
   \<and> packetLoss (regionalbank_flow_report
        \<lparr> txPackets = 3, rxPackets = 2, delaySum = 1 / 4, jitterSum = 0 \<rparr>)
       = Some (Finite (4691249611844267 / 140737488355328))
   \<and> packetLoss (triangular_flow_report
        \<lparr> txPackets = 3, rxPackets = 2, delaySum = 1 / 4, jitterSum = 0 \<rparr>)
       = Some (Finite (4691249611844267 / 140737488355328))"
  using C5_loss_percentage_and_mean_delay
    [of "\<lparr> txPackets = 10, rxPackets = 6, delaySum = 3 / 128, jitterSum = 1 / 1024 \<rparr>"]
    C5_loss_percentage_and_mean_delay
    [of "\<lparr> txPackets = 3, rxPackets = 2, delaySum = 1 / 4, jitterSum = 0 \<rparr>"]
  by (simp add: of_uint32_def round_double_values is_double_values)

text \<open>
  The claim as stated fails at \<open>tx = 10\<close>, \<open>rx = 6\<close>: the loss the code reports is 40, the
  percentage, and neither the fraction 0.4 nor the double nearest to it.
\<close>

theorem C5_loss_rate_counterexample:
  "packetLoss (regionalbank_flow_report
      \<lparr> txPackets = 10, rxPackets = 6, delaySum = 3 / 128, jitterSum = 1 / 1024 \<rparr>)
     = Some (Finite 40)
   \<and> packetLoss (regionalbank_flow_report
      \<lparr> txPackets = 10, rxPackets = 6, delaySum = 3 / 128, jitterSum = 1 / 1024 \<rparr>)
     \<noteq> Some (Finite (4 / 10))
   \<and> packetLoss (regionalbank_flow_report
      \<lparr> txPackets = 10, rxPackets = 6, delaySum = 3 / 128, jitterSum = 1 / 1024 \<rparr>)
     \<noteq> Some (round_double (4 / 10))
   \<and> packetLoss (triangular_flow_report
      \<lparr> txPackets = 10, rxPackets = 6, delaySum = 3 / 128, jitterSum = 1 / 1024 \<rparr>)
     \<noteq> Some (Finite (4 / 10))
   \<and> packetLoss (triangular_flow_report
      \<lparr> txPackets = 10, rxPackets = 6, delaySum = 3 / 128, jitterSum = 1 / 1024 \<rparr>)
     \<noteq> Some (round_double (4 / 10))"
  by (simp add: regionalbank_loss triangular_loss of_uint32_def round_double_values)

subsection \<open>Division by zero\<close>

text \<open>
  C6 at the failing inputs. For a flow of which exactly one packet was received, exercise02
  and exercise03 print the mean jitter \<open>jitterSum / (rxPackets - 1)\<close>, a division by zero;
  for a flow record with \<open>txPackets = 0\<close> exercise02 prints the loss, a division by zero.
  exercise03 guards the loss with \<open>txPackets > 0\<close>, and exercise05 guards the jitter with
  \<open>rx > 1\<close> and the loss with \<open>tx > 0\<close>.
\<close>

theorem C6_division_by_zero_at_one_received_packet:
  "meanJitter (regionalbank_flow_report
      \<lparr> txPackets = 3, rxPackets = 1, delaySum = 1 / 100, jitterSum = 0 \<rparr>)
     = Some DivisionByZero
   \<and> meanJitter (triangular_flow_report
      \<lparr> txPackets = 3, rxPackets = 1, delaySum = 1 / 100, jitterSum = 0 \<rparr>)
     = Some DivisionByZero
   \<and> packetLoss (triangular_flow_report
      \<lparr> txPackets = 0, rxPackets = 0, delaySum = 0, jitterSum = 0 \<rparr>)
     = Some DivisionByZero
   \<and> packetLoss (regionalbank_flow_report
      \<lparr> txPackets = 0, rxPackets = 0, delaySum = 0, jitterSum = 0 \<rparr>) = None
   \<and> qos_avg_jitter 0 1 = Finite 0
   \<and> qos_loss_rate 0 0 = Finite 0"
  by (simp add: regionalbank_flow_report_def triangular_flow_report_def of_uint32_def
      qos_avg_jitter_def qos_loss_rate_def round_double_0)

section \<open>Properties of the VoIP application\<close>

lemma api_reach_ScheduleTx: "api_reach w v \<Longrightarrow> api_reach w (ScheduleTx v)"
proof (cases "m_running (user v)")
  case False
  assume "api_reach w v"
  with False show ?thesis by (simp add: ScheduleTx_def)
next
  case True
  assume r: "api_reach w v"
  show ?thesis
  proof (cases "schedule (m_interval (user v)) SendPacketEv (sched v)")
    case (Inl err)
    with True r show ?thesis by (simp add: ScheduleTx_def)
  next
    case (Inr p)
    obtain h s' where p: "p = (h, s')" by (cases p)
    from r Inr p have "api_reach w (v\<lparr> sched := s' \<rparr>)" by (auto intro: api_schedule)
    then have "api_reach w (v\<lparr> sched := s' \<rparr>\<lparr> user := (user v)\<lparr> m_sendEvent := Some h \<rparr> \<rparr>)"
      by (rule api_user)
    with True Inr p show ?thesis by (simp add: ScheduleTx_def)
  qed
qed

lemma api_only_voip: "api_only voip_handler"
  unfolding api_only_def
proof (intro allI)
  fix a and w :: voip_world
  show "api_reach w (voip_handler a w)"
    by (cases a) (auto simp: SendPacket_def intro!: api_reach_ScheduleTx api_user api_refl)
qed

lemma ScheduleTx_not_running: "\<not> m_running (user v) \<Longrightarrow> ScheduleTx v = v"
  by (simp add: ScheduleTx_def)

lemma send_pending_iff:
  "send_pending s \<longleftrightarrow> (\<exists>e\<in>set (queue s). action e = SendPacketEv \<and> \<not> cancelled e)"
  by (simp add: send_pending_def list_ex_iff)

lemma StopApplication_stopped:
  assumes "voip_inv w"
  shows "\<not> send_pending (sched (StopApplication w))"
    and "\<not> m_running (user (StopApplication w))"
    and "sched_inv (sched (StopApplication w))"
proof -
  from assms have i: "sched_inv (sched w)"
    and p: "\<forall>e\<in>set (queue (sched w)). action e = SendPacketEv \<and> \<not> cancelled e
              \<longrightarrow> m_sendEvent (user w) = Some (insertion_sequence e)"
    by (simp_all add: voip_inv_def list_all_iff)
  show "\<not> m_running (user (StopApplication w))"
    by (simp add: StopApplication_def Let_def)
  show "sched_inv (sched (StopApplication w))"
    using i by (cases "m_sendEvent (user w)")
      (simp_all add: StopApplication_def Let_def SimulatorCancel_def sched_inv_cancel)
  show "\<not> send_pending (sched (StopApplication w))"
  proof (cases "m_sendEvent (user w)")
    case None
    with p have "\<not> send_pending (sched w)" by (auto simp: send_pending_iff)
    with None show ?thesis by (simp add: StopApplication_def Let_def IsPending_def)
  next
    case (Some h)
    show ?thesis
    proof (cases "IsPending (Some h) (sched w)")
      case True
      have "\<not> send_pending (cancel h (sched w))"
        using p Some by (auto simp: send_pending_iff cancel_def mark_cancelled_def split: if_splits)
      with True Some show ?thesis
        by (simp add: StopApplication_def Let_def SimulatorCancel_def)
    next
      case False
      then have "\<forall>e\<in>set (queue (sched w)). insertion_sequence e = h \<longrightarrow> cancelled e"
        by (auto simp: IsPending_def list_ex_iff)
      with p Some have "\<not> send_pending (sched w)" by (auto simp: send_pending_iff)
      with False Some show ?thesis by (simp add: StopApplication_def Let_def)
    qed
  qed
qed

lemma stopped_run:
  "\<not> m_running (user w) \<Longrightarrow> \<not> send_pending (sched w) \<Longrightarrow>
     (\<forall>x\<in>set (fst (run_until stop_time fuel voip_handler w)). action (fst x) \<noteq> SendPacketEv)
     \<and> user (snd (run_until stop_time fuel voip_handler w)) = user w
     \<and> \<not> send_pending (sched (snd (run_until stop_time fuel voip_handler w)))"
proof (induction fuel arbitrary: w)
  case 0
  then show ?case by simp
next
  case (Suc fuel)
  show ?case
  proof (cases "queue (sched w)")
    case Nil
    with Suc.prems show ?thesis by simp
  next
    case (Cons e q)
    let ?w1 = "w\<lparr> sched := (sched w)\<lparr> clock := scheduled_time e, queue := q \<rparr> \<rparr>"
    have r1: "\<not> m_running (user ?w1)" using Suc.prems(1) by simp
    have p1: "\<not> send_pending (sched ?w1)"
      using Suc.prems(2) Cons by (simp add: send_pending_iff)
    show ?thesis
    proof (cases "stop_time < scheduled_time e \<or> cancelled e")
      case True
      with Cons Suc.prems Suc.IH [OF r1 p1] show ?thesis by (auto simp: Let_def)
    next
      case False
      with Suc.prems(2) Cons have ne: "action e \<noteq> SendPacketEv"
        by (auto simp: send_pending_iff)
      then obtain n where n: "action e = OtherEv n" by (cases "action e") simp_all
      from False Cons n ne Suc.IH [OF r1 p1] show ?thesis by (simp add: Let_def)
    qed
  qed
qed

text \<open>
  C10. After \<open>StopApplication\<close> the application never sends another packet. In every world
  where the send events still pending are the one \<open>m_sendEvent\<close> names, \<open>StopApplication\<close>
  leaves \<open>m_running\<close> false and no send event pending (the pending one is cancelled); in
  every run from there no send event is executed and the application is left exactly as
  \<open>StopApplication\<close> left it, with \<open>m_packetsSent\<close> and the socket's \<open>Send\<close> calls as they
  were before the stop. And \<open>ScheduleTx\<close> schedules nothing while \<open>m_running\<close> is false.
\<close>

theorem C10_no_send_after_stop:
  "(voip_inv w \<longrightarrow>
      \<not> m_running (user (StopApplication w))
      \<and> \<not> send_pending (sched (StopApplication w))
      \<and> (\<forall>x\<in>set (fst (run_until stop_time fuel voip_handler (StopApplication w))).
            action (fst x) \<noteq> SendPacketEv)
      \<and> user (snd (run_until stop_time fuel voip_handler (StopApplication w)))
          = user (StopApplication w)
      \<and> \<not> send_pending (sched (snd (run_until stop_time fuel voip_handler (StopApplication w))))
      \<and> m_packetsSent (user (snd (run_until stop_time fuel voip_handler (StopApplication w))))
          = m_packetsSent (user w)
      \<and> map_option send_calls
           (m_socket (user (snd (run_until stop_time fuel voip_handler (StopApplication w)))))
          = map_option send_calls (m_socket (user w)))
   \<and> (\<not> m_running (user v) \<longrightarrow> ScheduleTx v = v)"
proof (intro conjI impI)
  assume i: "voip_inv w"
  show r: "\<not> m_running (user (StopApplication w))"
    and p: "\<not> send_pending (sched (StopApplication w))"
    using StopApplication_stopped [OF i] by simp_all
  from stopped_run [OF r p, of stop_time fuel]
  show "\<forall>x\<in>set (fst (run_until stop_time fuel voip_handler (StopApplication w))).
            action (fst x) \<noteq> SendPacketEv"
    and u: "user (snd (run_until stop_time fuel voip_handler (StopApplication w)))
          = user (StopApplication w)"
    and "\<not> send_pending (sched (snd (run_until stop_time fuel voip_handler (StopApplication w))))"
    by simp_all
  show "m_packetsSent (user (snd (run_until stop_time fuel voip_handler (StopApplication w))))
          = m_packetsSent (user w)"
    unfolding u by (simp add: StopApplication_def Let_def)
  show "map_option send_calls
           (m_socket (user (snd (run_until stop_time fuel voip_handler (StopApplication w)))))
          = map_option send_calls (m_socket (user w))"
    unfolding u by (cases "m_socket (user w)") (simp_all add: StopApplication_def Let_def Close_def)
next
  assume "\<not> m_running (user v)"
  then show "ScheduleTx v = v" by (rule ScheduleTx_not_running)
qed

lemma ScheduleTx_inv:
  assumes "sched_inv (sched w)" "\<not> send_pending (sched w)"
  shows "voip_inv (ScheduleTx w)"
proof (cases "m_running (user w)")
  case False
  with assms show ?thesis
    by (auto simp: ScheduleTx_def voip_inv_def send_pending_iff list_all_iff)
next
  case True
  show ?thesis
  proof (cases "schedule (m_interval (user w)) SendPacketEv (sched w)")
    case (Inl err)
    with True assms show ?thesis
      by (auto simp: ScheduleTx_def voip_inv_def send_pending_iff list_all_iff)
  next
    case (Inr p)
    obtain h s' where p: "p = (h, s')" by (cases p)
    from Inr p have i: "sched_inv s'" using assms(1) by (auto intro: sched_inv_schedule)
    from Inr p have q: "set (queue s') =
        insert \<lparr> scheduled_time = clock (sched w) + m_interval (user w), insertion_sequence = h,
                 action = SendPacketEv, cancelled = False \<rparr> (set (queue (sched w)))"
      by (auto simp: schedule_def set_enqueue split: if_splits)
    from True Inr p i q assms(2) show ?thesis
      by (auto simp: ScheduleTx_def voip_inv_def send_pending_iff list_all_iff)
  qed
qed

lemma voip_inv_StartApplication:
  assumes "sched_inv (sched w)" "\<not> send_pending (sched w)"
  shows "voip_inv (StartApplication w)"
  unfolding StartApplication_def Let_def
  using assms by (intro ScheduleTx_inv) simp_all

lemma voip_inv_step:
  assumes "voip_inv w" "queue (sched w) = e # q"
  shows "voip_inv (w\<lparr> sched := (sched w)\<lparr> clock := scheduled_time e, queue := q \<rparr> \<rparr>)"
    and "\<not> cancelled e \<Longrightarrow>
           voip_inv (voip_handler (action e)
                       (w\<lparr> sched := (sched w)\<lparr> clock := scheduled_time e, queue := q \<rparr> \<rparr>))"
proof -
  let ?w1 = "w\<lparr> sched := (sched w)\<lparr> clock := scheduled_time e, queue := q \<rparr> \<rparr>"
  from assms have i: "sched_inv (sched w)"
    and p: "\<forall>x\<in>set (e # q). action x = SendPacketEv \<and> \<not> cancelled x
              \<longrightarrow> m_sendEvent (user w) = Some (insertion_sequence x)"
    by (simp_all add: voip_inv_def list_all_iff)
  have i1: "sched_inv (sched ?w1)" using sched_inv_pop(1) [OF i assms(2)] by simp
  with p show v1: "voip_inv ?w1" by (simp add: voip_inv_def list_all_iff)
  assume nc: "\<not> cancelled e"
  show "voip_inv (voip_handler (action e) ?w1)"
  proof (cases "action e")
    case (OtherEv n)
    with v1 show ?thesis by simp
  next
    case SendPacketEv
    with p nc have m: "m_sendEvent (user w) = Some (insertion_sequence e)" by simp
    from i assms(2) have "insertion_sequence e \<notin> insertion_sequence ` set q"
      by (simp add: sched_inv_def)
    with p m have np: "\<not> send_pending (sched ?w1)"
      by (auto simp: send_pending_iff)
    let ?w2 = "?w1\<lparr> user := (user ?w1)
             \<lparr> m_socket := map_option (Send (m_packetSize (user ?w1)) (now (sched ?w1)))
                              (m_socket (user ?w1)),
               m_packetsSent := m_packetsSent (user ?w1) + 1 \<rparr> \<rparr>"
    have "voip_inv (ScheduleTx ?w2)"
      using i1 np by (intro ScheduleTx_inv) simp_all
    with SendPacketEv show ?thesis by (simp add: SendPacket_def)
  qed
qed

lemma voip_inv_run:
  "voip_inv w \<Longrightarrow> voip_inv (snd (run_until stop_time fuel voip_handler w))"
proof (induction fuel arbitrary: w)
  case 0
  then show ?case by simp
next
  case (Suc fuel)
  show ?case
  proof (cases "queue (sched w)")
    case Nil
    with Suc.prems show ?thesis by simp
  next
    case (Cons e q)
    let ?w1 = "w\<lparr> sched := (sched w)\<lparr> clock := scheduled_time e, queue := q \<rparr> \<rparr>"
    show ?thesis
    proof (cases "stop_time < scheduled_time e")
      case True
      with Cons Suc.prems show ?thesis by simp
    next
      case False
      show ?thesis
      proof (cases "cancelled e")
        case True
        with Cons False Suc.IH [OF voip_inv_step(1) [OF Suc.prems Cons]] show ?thesis
          by (simp add: Let_def)
      next
        case nc: False
        with Cons False Suc.IH [OF voip_inv_step(2) [OF Suc.prems Cons nc]] show ?thesis
          by (simp add: Let_def)
      qed
    qed
  qed
qed

lemma voip_inv_started:
  "voip_inv (snd (run_until stop_time fuel voip_handler (StartApplication voip_initial)))"
  by (intro voip_inv_run voip_inv_StartApplication)
     (simp_all add: voip_initial_def initial_scheduler_def sched_inv_def send_pending_def)

lemma voip_started_sent:
  "m_packetsSent (user (snd (run_until 100000000 10 voip_handler (StartApplication voip_initial))))
     = 5"
  by code_simp

lemma voip_started_pending:
  "send_pending (sched (snd (run_until 100000000 10 voip_handler (StartApplication voip_initial))))"
  by code_simp

lemma voip_started_send_calls:
  "map_option send_calls
     (m_socket (user (snd (run_until 100000000 10 voip_handler (StartApplication voip_initial)))))
   = Some [(160, 20000000), (160, 40000000), (160, 60000000), (160, 80000000), (160, 100000000)]"
  by code_simp

theorem C10_no_send_after_stop_witness:
  "voip_inv (snd (run_until 100000000 10 voip_handler (StartApplication voip_initial)))
   \<and> m_running (user (snd (run_until 100000000 10 voip_handler (StartApplication voip_initial))))
   \<and> send_pending (sched (snd (run_until 100000000 10 voip_handler (StartApplication voip_initial))))
   \<and> m_packetsSent (user (snd (run_until 100000000 10 voip_handler (StartApplication voip_initial))))
       = 5
   \<and> \<not> send_pending (sched (StopApplication
          (snd (run_until 100000000 10 voip_handler (StartApplication voip_initial)))))
   \<and> m_packetsSent (user (snd (run_until 1000000000 10 voip_handler
        (StopApplication
           (snd (run_until 100000000 10 voip_handler (StartApplication voip_initial)))))))
       = 5
   \<and> map_option send_calls (m_socket (user (snd (run_until 1000000000 10 voip_handler
        (StopApplication
           (snd (run_until 100000000 10 voip_handler (StartApplication voip_initial))))))))
       = Some [(160, 20000000), (160, 40000000), (160, 60000000), (160, 80000000),
               (160, 100000000)]
   \<and> \<not> m_running (user voip_initial) \<and> ScheduleTx voip_initial = voip_initial"
proof -
  let ?w = "snd (run_until 100000000 10 voip_handler (StartApplication voip_initial))"
  have i: "voip_inv ?w" by (rule voip_inv_started)
  have r: "m_running (user ?w)" by code_simp
  have n: "\<not> m_running (user voip_initial)"
    by (simp add: voip_initial_def Setup_def VoipApplication_new_def)
  note inst = C10_no_send_after_stop [of ?w 1000000000 10 voip_initial]
  from inst i have
    "\<not> send_pending (sched (StopApplication ?w))"
    "m_packetsSent (user (snd (run_until 1000000000 10 voip_handler (StopApplication ?w))))
       = m_packetsSent (user ?w)"
    "map_option send_calls
       (m_socket (user (snd (run_until 1000000000 10 voip_handler (StopApplication ?w)))))
     = map_option send_calls (m_socket (user ?w))"
    by blast+
  moreover from inst n have "ScheduleTx voip_initial = voip_initial" by blast
  ultimately show ?thesis
    using i r n voip_started_sent voip_started_pending voip_started_send_calls by simp
qed

section \<open>Properties of the attacker topology\<close>

lemma unat_min_5: "unat (min v (5 :: uint32)) = min (unat v) 5"
  by (simp add: min_def word_le_nat_alt)

text \<open>
  C9. For every value of the \<open>attackers\<close> parameter the number of attacker nodes created is
  \<open>min(value, 5)\<close>; the clamp precedes the creation of attacker nodes, links and subnets,
  so each of these has \<open>min(value, 5)\<close> members, and the attacker nodes are the ids
  \<open>3, 4, ...\<close> that follow the three main nodes.
\<close>

theorem C9_attackers_clamped:
  "length (attackers (wan_security_setup v)) = min (unat v) 5
   \<and> length (attackDevicePairs (wan_security_setup v)) = min (unat v) 5
   \<and> length (attackNetworks (wan_security_setup v)) = min (unat v) 5
   \<and> unat (numAttackers_used (wan_security_setup v)) = min (unat v) 5
   \<and> attackers (wan_security_setup v) = [3 ..< 3 + min (unat v) 5]"
  by (simp add: wan_security_setup_def Let_def Create_def unat_min_5)

end
